theory Spec2Isabelle
  imports Main "HOL-Library.Word" "HOL-Library.Multiset"
begin

section \<open>Data of the DNS library, as far as bulkdns.go reads and writes it\<close>

text \<open>
  The program is bulkdns.go: \<open>main\<close>, \<open>initResolvers\<close>, the sequential \<open>slowResolv\<close>, the
  concurrent \<open>fastResolv\<close> with its goroutines \<open>resolv2\<close>, and the query executor \<open>resolv\<close>.
  A variant of it, with the same dispatcher, defers the release of the slot inside
  \<open>resolv\<close>; its goroutine is modelled next to \<open>resolv2\<close>.

  Go strings are byte sequences, so they are \<^typ>\<open>string\<close>. The record types below hold
  the fields of the library's structs that the program touches: \<open>dns.Question\<close>,
  \<open>dns.RR_Header\<close>, \<open>dns.Msg\<close> and \<open>dns.Client\<close>. A \<open>time.Duration\<close> is a signed 64-bit
  count of nanoseconds.
\<close>

type_synonym duration = "64 word"

record dns_Question =
  Name :: string
  Qtype :: "16 word"
  Qclass :: "16 word"

record dns_RR_Header =
  Hname :: string
  Rrtype :: "16 word"

text \<open>
  \<open>dns.RR\<close> is an interface. Its dynamic type is either \<open>*dns.NS\<close> (a header and the
  field \<open>Ns\<close>) or some other record type; the header carries its own \<open>Rrtype\<close>, which the
  Go type system does not tie to the dynamic type.
\<close>

datatype dns_RR = NS dns_RR_Header string | OtherRR dns_RR_Header

fun Header :: "dns_RR \<Rightarrow> dns_RR_Header" where
  "Header (NS h ns) = h"
| "Header (OtherRR h) = h"

record dns_Msg =
  RecursionDesired :: bool
  Rcode :: int
  Question :: "dns_Question list"
  Answer :: "dns_RR list"

record dns_Client =
  ReadTimeout :: duration

definition TypeNS :: "16 word" where
  "TypeNS = 2"

definition ClassINET :: "16 word" where
  "ClassINET = 1"

definition RcodeSuccess :: int where
  "RcodeSuccess = 0"

text \<open>\<open>new(dns.Msg)\<close>, \<open>new(dns.Client)\<close> and the zero \<open>dns.Question\<close>: every field zero.\<close>

definition new_Msg :: dns_Msg where
  "new_Msg = \<lparr>RecursionDesired = False, Rcode = 0, Question = [], Answer = []\<rparr>"

definition new_Client :: dns_Client where
  "new_Client = \<lparr>ReadTimeout = 0\<rparr>"

definition zero_Question :: dns_Question where
  "zero_Question = \<lparr>Name = [], Qtype = 0, Qclass = 0\<rparr>"

text \<open>
  \<open>(*dns.Msg).SetQuestion(z, t)\<close> of the library: it sets the recursion-desired flag and
  replaces the question section by the single question \<open>{z, t, ClassINET}\<close>. (It also
  draws a fresh random message id, which the program never reads.)
\<close>

definition SetQuestion :: "dns_Msg \<Rightarrow> string \<Rightarrow> 16 word \<Rightarrow> dns_Msg" where
  "SetQuestion m z t =
     m\<lparr>RecursionDesired := True,
       Question := (replicate 1 zero_Question)[0 := \<lparr>Name = z, Qtype = t, Qclass = ClassINET\<rparr>]\<rparr>"

text \<open>
  What \<open>client.Exchange(query, server)\<close> hands back: the response pointer (\<open>None\<close> is
  \<open>nil\<close>) and the error (\<open>None\<close> is \<open>nil\<close>, otherwise its message). The network is a
  parameter of the model.
\<close>

type_synonym xresult = "dns_Msg option \<times> string option"

type_synonym exchange = "dns_Client \<Rightarrow> dns_Msg \<Rightarrow> string \<Rightarrow> xresult"

section \<open>What the process does: output, queries, ways to stop\<close>

datatype arg = S string | I int | E string

datatype event =
    Printf string "arg list"
  | Println string
  | Fprintln_Stderr string string
  | Exchange dns_Client dns_Msg string

datatype abort = Panic | Exit int

section \<open>Constants and tables of bulkdns.go\<close>

definition TIMEOUT :: duration where
  "TIMEOUT = 5"

definition rcode2string :: "int \<rightharpoonup> string" where
  "rcode2string = map_of
     [(0, ''Success''),
      (1, ''Format Error''),
      (2, ''Server Failure''),
      (3, ''Name Error''),
      (4, ''Not Implementd''),
      (5, ''Refused''),
      (6, ''YXDomain''),
      (7, ''YXRrset''),
      (8, ''NXRrset''),
      (9, ''Not Auth''),
      (10, ''Not Zone''),
      (16, ''Bad Signature / Bad Version''),
      (17, ''Bad Key''),
      (18, ''Bad Time''),
      (19, ''Bad Mode''),
      (20, ''Bad Name''),
      (21, ''Bad Algorithm''),
      (22, ''Bad Trunc''),
      (23, ''Bad Cookie'')]"

text \<open>Indexing a Go \<open>map[int]string\<close>: a missing key gives the zero value, the empty string.\<close>

definition map_index :: "(int \<rightharpoonup> string) \<Rightarrow> int \<Rightarrow> string" where
  "map_index m k = (case m k of None \<Rightarrow> [] | Some v \<Rightarrow> v)"

section \<open>initResolvers\<close>

text \<open>
  \<open>strings.ContainsAny(s, chars)\<close> of the standard library: some code point of \<open>chars\<close>
  occurs in \<open>s\<close>. On bytes this is exact whenever \<open>s\<close> is ASCII, as the literal \<open>":"\<close> the
  program passes is: an ASCII byte inside a Go string is always that code point.
\<close>

definition ContainsAny :: "string \<Rightarrow> string \<Rightarrow> bool" where
  "ContainsAny s chars = list_ex (\<lambda>c. c \<in> set s) chars"

text \<open>The body of the loop over \<open>conf.Servers\<close>: the endpoint built from one server.\<close>

definition endpoint :: "string \<Rightarrow> string" where
  "endpoint server =
     (if ContainsAny '':'' server then ''['' @ server @ '']:53'' else server @ '':53'')"

text \<open>
  The loop appends to the global \<open>resolvers\<close>, here the accumulator, and prints each
  endpoint when verbose.
\<close>

fun initResolvers_loop :: "bool \<Rightarrow> string list \<Rightarrow> event list \<times> string list \<Rightarrow> event list \<times> string list" where
  "initResolvers_loop verbose [] (out, resolvers) = (out, resolvers)"
| "initResolvers_loop verbose (s # rest) (out, resolvers) =
     initResolvers_loop verbose rest
       (out @ (if verbose then [Println (''Found resolver '' @ endpoint s)] else []),
        resolvers @ [endpoint s])"

text \<open>
  \<open>conf\<close> is what \<open>dns.ClientConfigFromFile\<close> returned: the servers of the configuration
  (\<open>None\<close> for a nil configuration) and the error text.
\<close>

definition initResolvers :: "bool \<Rightarrow> string list option \<times> string \<Rightarrow> string list \<Rightarrow> event list \<times> (abort + string list)" where
  "initResolvers verbose conf resolvers0 =
     (case fst conf of
        None \<Rightarrow> ([Printf ''Cannot initialize the local resolver: %s\<newline>'' [E (snd conf)]], Inl (Exit 1))
      | Some servers \<Rightarrow>
          (case initResolvers_loop verbose servers ([], resolvers0) of
             (out, resolvers) \<Rightarrow>
               if length resolvers = 0 then (out @ [Println ''No resolvers found.''], Inl (Exit 5))
               else (out, Inr resolvers)))"

section \<open>resolv\<close>

text \<open>
  The loop over \<open>r.Answer\<close>. The type assertion \<open>answer.(*dns.NS)\<close> panics when the
  dynamic type is not \<open>*dns.NS\<close>.
\<close>

fun resolv_loop :: "bool \<Rightarrow> dns_RR list \<Rightarrow> event list \<Rightarrow> string list \<Rightarrow> event list \<times> (abort + string list)" where
  "resolv_loop verbose [] out nslist = (out, Inr nslist)"
| "resolv_loop verbose (answer # rest) out nslist =
     (if Rrtype (Header answer) = TypeNS then
        (case answer of
           NS h nameserver \<Rightarrow>
             resolv_loop verbose rest
               (out @ (if verbose then [Printf '' %s'' [S nameserver]] else []))
               (nslist @ [nameserver])
         | OtherRR h \<Rightarrow> (out, Inl Panic))
      else resolv_loop verbose rest out nslist)"

text \<open>
  \<open>resolv\<close> returns a slice: \<open>None\<close> is the nil slice, \<open>Some xs\<close> a non-nil slice with the
  elements \<open>xs\<close>.
\<close>

text \<open>The blocks "Setting up query" and "Setting up resolver" of \<open>resolv\<close>.\<close>

definition resolv_query :: "string \<Rightarrow> dns_Msg" where
  "resolv_query domain =
     SetQuestion
       (new_Msg\<lparr>RecursionDesired := True, Question := replicate 1 zero_Question\<rparr>)
       domain TypeNS"

definition resolv_client :: dns_Client where
  "resolv_client = new_Client\<lparr>ReadTimeout := TIMEOUT * 1000000000\<rparr>"

definition resolv :: "bool \<Rightarrow> exchange \<Rightarrow> string \<Rightarrow> string \<Rightarrow> event list \<times> (abort + string list option)" where
  "resolv verbose exch domain server =
     (let out0 = (if verbose then [Printf ''Resolving %s using %s\<newline>'' [S domain, S server]] else []);
          nslist = [];
          query = resolv_query domain;
          client = resolv_client;
          out1 = out0 @ [Exchange client query server]
      in case exch client query server of
           (r, err) \<Rightarrow>
             (case err of
                Some e \<Rightarrow>
                  (out1 @ [Printf ''Error resolving %s from %s \<newline>'' [S domain, S server, E e]],
                   Inr None)
              | None \<Rightarrow>
                  (case r of
                     None \<Rightarrow>
                       (out1 @ [Printf ''Error resolving %s from %s\<newline>'' [S domain, S server]],
                        Inr None)
                   | Some m \<Rightarrow>
                       if Rcode m \<noteq> RcodeSuccess then
                         (out1 @ [Printf ''Error resolving %s from %s (Rcode %d %s)\<newline>''
                                    [S domain, S server, I (Rcode m),
                                     S (map_index rcode2string (Rcode m))]],
                          Inr None)
                       else
                         (case resolv_loop verbose (Answer m)
                                 (out1 @ (if verbose then [Printf ''%-30s:'' [S domain]] else []))
                                 nslist of
                            (out, Inl a) \<Rightarrow> (out, Inl a)
                          | (out, Inr l) \<Rightarrow>
                              (out @ (if verbose then [Println []] else []), Inr (Some l))))))"

section \<open>slowResolv\<close>

text \<open>
  The reader \<open>domains\<close> is the list of lines the scanner returns and the error, if any,
  that ended the scan. The network may answer each exchange differently: \<open>net k\<close> is what
  it does at the \<open>k\<close>-th call. Indexing \<open>resolvers\<close> out of range panics.
\<close>

type_synonym reader = "string list \<times> string option"

fun slowResolv_loop :: "bool \<Rightarrow> string list \<Rightarrow> (nat \<Rightarrow> exchange) \<Rightarrow> nat \<Rightarrow> string list \<Rightarrow> nat \<Rightarrow> event list \<times> (abort + unit)" where
  "slowResolv_loop verbose resolvers net k [] server = ([], Inr ())"
| "slowResolv_loop verbose resolvers net k (text # rest) server =
     (if server < length resolvers then
        (case resolv verbose (net k) text (resolvers ! server) of
           (out, Inl a) \<Rightarrow> (out, Inl a)
         | (out, Inr nslist) \<Rightarrow>
             (case slowResolv_loop verbose resolvers net (Suc k) rest
                     ((server + 1) mod length resolvers) of
                (out', res) \<Rightarrow> (out @ out', res)))
      else ([], Inl Panic))"

definition slowResolv :: "bool \<Rightarrow> string list \<Rightarrow> (nat \<Rightarrow> exchange) \<Rightarrow> reader \<Rightarrow> event list \<times> (abort + unit)" where
  "slowResolv verbose resolvers net domains =
     (case slowResolv_loop verbose resolvers net 0 (fst domains) 0 of
        (out, Inl a) \<Rightarrow> (out, Inl a)
      | (out, Inr u) \<Rightarrow>
          (out @ (case snd domains of
                    None \<Rightarrow> []
                  | Some err \<Rightarrow> [Fprintln_Stderr ''reading domain list:'' err]),
           Inr ()))"

section \<open>fastResolv and resolv2: the dispatcher and its goroutines\<close>

text \<open>
  The concurrent path is a transition system. The dispatcher is the loop of \<open>fastResolv\<close>,
  with one program point per statement; a goroutine is one call of \<open>resolv2\<close>, which is
  inside \<open>resolv\<close> (\<open>Querying\<close>), then at the receive from \<open>threads\<close> (\<open>Returned\<close>), then
  at \<open>wg.Done()\<close> (\<open>Released\<close>), then gone (\<open>Finished\<close>). It keeps what \<open>resolv\<close> returned
  and, for the variant of the program with deferred calls below, whether it is
  unwinding a panic.
\<close>

datatype phase = Querying | Returned | Released | Finished

record goroutine =
  g_domain :: string
  g_server :: string
  g_phase :: phase
  g_result :: "string list option"
  g_panicking :: bool

datatype dpc =
    AtScan
  | AtAdd string
  | AtSend string
  | AtGo string
  | AtErr
  | AtWait
  | AtClose
  | Exited
  | Panicked

text \<open>The operations on the channel and the wait group, as a history (ghost state);
  \<open>Return i r\<close> is goroutine \<open>i\<close> leaving \<open>resolv\<close>.\<close>

datatype action =
    WgAdd
  | Send
  | GoStmt nat
  | Return nat "string list option"
  | Receive nat
  | WgDone nat
  | Close

record fstate =
  scanner :: "string list"
  scan_err :: "string option"
  server_ix :: nat
  pc :: dpc
  wg :: nat
  threads :: nat
  threads_cap :: nat
  closed :: bool
  procs :: "goroutine list"
  trace :: "event list"
  hist :: "action list"

text \<open>
  \<open>make(chan string, n)\<close> of the runtime. It does not return for every \<open>n\<close>: beyond what the
  platform can address it panics (size out of range), and beyond what the machine has it
  ends the process out of memory. \<open>chan_limit\<close>, a parameter of the model, is the largest
  capacity for which it returns; the result is the capacity of the channel made.
\<close>

definition make_chan :: "nat \<Rightarrow> nat \<Rightarrow> abort + nat" where
  "make_chan chan_limit n = (if n \<le> chan_limit then Inr n else Inl Panic)"

text \<open>
  The state at the head of the loop, once \<open>threads\<close> has been made with capacity \<open>c\<close>
  (\<open>threads\<close> is how many values the channel holds, \<open>threads_cap\<close> its capacity).
\<close>

definition fastResolv_start :: "nat \<Rightarrow> reader \<Rightarrow> fstate" where
  "fastResolv_start c domains =
     \<lparr>scanner = fst domains, scan_err = snd domains, server_ix = 0, pc = AtScan, wg = 0,
      threads = 0, threads_cap = c, closed = False, procs = [], trace = [], hist = []\<rparr>"

text \<open>
  The statements of \<open>fastResolv\<close> before its loop: the wait group, the channel made with
  room for \<open>concurrent\<close> values, the scanner, the cursor. The flag \<open>concurrent\<close> is an
  unsigned integer, here a natural number. When \<open>make\<close> fails the process ends before a
  line is read.
\<close>

definition fastResolv_init :: "nat \<Rightarrow> nat \<Rightarrow> reader \<Rightarrow> abort + fstate" where
  "fastResolv_init chan_limit concurrent domains =
     (case make_chan chan_limit concurrent of
        Inl a \<Rightarrow> Inl a
      | Inr c \<Rightarrow> Inr (fastResolv_start c domains))"

text \<open>
  One statement of the dispatcher. The send on \<open>threads\<close> goes into the buffer when
  there is room and blocks otherwise; \<open>wg.Wait()\<close> blocks while the counter is positive. A blocked
  statement is \<open>None\<close>.
\<close>

definition dispatcher_step :: "string list \<Rightarrow> fstate \<Rightarrow> fstate option" where
  "dispatcher_step resolvers s =
     (case pc s of
        AtScan \<Rightarrow>
          (case scanner s of
             [] \<Rightarrow> Some (s\<lparr>pc := AtErr\<rparr>)
           | text # rest \<Rightarrow> Some (s\<lparr>scanner := rest, pc := AtAdd text\<rparr>))
      | AtAdd text \<Rightarrow> Some (s\<lparr>wg := wg s + 1, pc := AtSend text, hist := hist s @ [WgAdd]\<rparr>)
      | AtSend text \<Rightarrow>
          if threads s < threads_cap s
          then Some (s\<lparr>threads := threads s + 1, pc := AtGo text, hist := hist s @ [Send]\<rparr>)
          else None
      | AtGo text \<Rightarrow>
          if server_ix s < length resolvers
          then Some (s\<lparr>procs := procs s @
                          [\<lparr>g_domain = text, g_server = resolvers ! server_ix s,
                            g_phase = Querying, g_result = None, g_panicking = False\<rparr>],
                        server_ix := (server_ix s + 1) mod length resolvers,
                        pc := AtScan,
                        hist := hist s @ [GoStmt (length (procs s))]\<rparr>)
          else Some (s\<lparr>pc := Panicked\<rparr>)
      | AtErr \<Rightarrow>
          Some (s\<lparr>trace := trace s @ (case scan_err s of
                                     None \<Rightarrow> []
                                   | Some err \<Rightarrow> [Fprintln_Stderr ''reading domain list:'' err]),
                  pc := AtWait\<rparr>)
      | AtWait \<Rightarrow> if wg s = 0 then Some (s\<lparr>pc := AtClose\<rparr>) else None
      | AtClose \<Rightarrow> Some (s\<lparr>closed := True, pc := Exited, hist := hist s @ [Close]\<rparr>)
      | Exited \<Rightarrow> None
      | Panicked \<Rightarrow> None)"

text \<open>
  One statement of goroutine \<open>i\<close>, a call of \<open>resolv2\<close>. The call of \<open>resolv\<close> is one
  step, with \<open>x\<close> what the network answers; a panic inside it ends the process. The
  receive takes a value from the buffer, or the zero value from a closed channel, and
  blocks otherwise. \<open>wg.Done()\<close> panics on a zero counter. Nothing runs once the process
  has ended.
\<close>

definition resolv2_step :: "bool \<Rightarrow> fstate \<Rightarrow> nat \<Rightarrow> xresult \<Rightarrow> fstate option" where
  "resolv2_step verbose s i x =
     (if pc s = Panicked \<or> pc s = Exited \<or> length (procs s) \<le> i then None
      else
        let g = procs s ! i in
        case g_phase g of
          Querying \<Rightarrow>
            (case resolv verbose (\<lambda>client query server. x) (g_domain g) (g_server g) of
               (ev, Inl a) \<Rightarrow> Some (s\<lparr>trace := trace s @ ev, pc := Panicked\<rparr>)
             | (ev, Inr nslist) \<Rightarrow>
                 Some (s\<lparr>trace := trace s @ ev,
                         procs := (procs s)[i := g\<lparr>g_phase := Returned, g_result := nslist\<rparr>],
                         hist := hist s @ [Return i nslist]\<rparr>))
        | Returned \<Rightarrow>
            if 0 < threads s then
              Some (s\<lparr>threads := threads s - 1,
                      procs := (procs s)[i := g\<lparr>g_phase := Released\<rparr>],
                      hist := hist s @ [Receive i]\<rparr>)
            else if closed s then
              Some (s\<lparr>procs := (procs s)[i := g\<lparr>g_phase := Released\<rparr>],
                      hist := hist s @ [Receive i]\<rparr>)
            else None
        | Released \<Rightarrow>
            if wg s = 0 then Some (s\<lparr>pc := Panicked\<rparr>)
            else Some (s\<lparr>wg := wg s - 1,
                         procs := (procs s)[i := g\<lparr>g_phase := Finished\<rparr>],
                         hist := hist s @ [WgDone i]\<rparr>)
        | Finished \<Rightarrow> None)"

text \<open>
  On a channel without buffer (capacity 0) a send completes only together with
  a receive: the dispatcher at its send and goroutine \<open>i\<close> at its receive move at once.
  (With a buffer, handing a value to a waiting receiver is the send into the empty
  buffer followed by the receive.)
\<close>

definition rendezvous_step :: "fstate \<Rightarrow> nat \<Rightarrow> fstate option" where
  "rendezvous_step s i =
     (case pc s of
        AtSend text \<Rightarrow>
          if threads_cap s = 0 \<and> i < length (procs s) \<and> g_phase (procs s ! i) = Returned
          then Some (s\<lparr>pc := AtGo text,
                       procs := (procs s)[i := (procs s ! i)\<lparr>g_phase := Released\<rparr>],
                       hist := hist s @ [Send, Receive i]\<rparr>)
          else None
      | _ \<Rightarrow> None)"

text \<open>A schedule says who moves next; a run follows a schedule as long as nobody it names is blocked.\<close>

datatype label = Dispatcher | Goroutine nat xresult | Rendezvous nat

fun step :: "bool \<Rightarrow> string list \<Rightarrow> fstate \<Rightarrow> label \<Rightarrow> fstate option" where
  "step verbose resolvers s Dispatcher = dispatcher_step resolvers s"
| "step verbose resolvers s (Goroutine i x) = resolv2_step verbose s i x"
| "step verbose resolvers s (Rendezvous i) = rendezvous_step s i"

fun run :: "bool \<Rightarrow> string list \<Rightarrow> fstate \<Rightarrow> label list \<Rightarrow> fstate option" where
  "run verbose resolvers s [] = Some s"
| "run verbose resolvers s (l # ls) =
     (case step verbose resolvers s l of
        None \<Rightarrow> None
      | Some s' \<Rightarrow> run verbose resolvers s' ls)"

text \<open>
  \<open>fastResolv\<close> under a schedule: the abort when the channel cannot be made, otherwise the
  state the schedule leads to, or \<open>None\<close> when it names somebody who is blocked.
\<close>

definition fastResolv :: "bool \<Rightarrow> nat \<Rightarrow> nat \<Rightarrow> string list \<Rightarrow> reader \<Rightarrow> label list \<Rightarrow> abort + fstate option" where
  "fastResolv verbose chan_limit concurrent resolvers domains sched =
     (case fastResolv_init chan_limit concurrent domains of
        Inl a \<Rightarrow> Inl a
      | Inr s \<Rightarrow> Inr (run verbose resolvers s sched))"

section \<open>The variant with deferred calls\<close>

text \<open>
  One variant of the program has no \<open>resolv2\<close>: its \<open>fastResolv\<close> starts \<open>resolv\<close> itself as
  the goroutine, and that \<open>resolv\<close> defers \<open>wg.Done()\<close> and the receive from \<open>threads\<close>
  before it builds the query. Its body prints other lines and returns nothing;
  \<open>resolv_deferred\<close> is that body up to the return or the panic.
\<close>

definition resolv_deferred :: "bool \<Rightarrow> exchange \<Rightarrow> string \<Rightarrow> string \<Rightarrow> event list \<times> (abort + unit)" where
  "resolv_deferred verbose exch domain server =
     (let out0 = (if verbose then [Printf ''Resolving %s using %s\<newline>'' [S domain, S server]] else []);
          nslist = [];
          query = resolv_query domain;
          client = resolv_client;
          out1 = out0 @ [Exchange client query server]
      in case exch client query server of
           (r, err) \<Rightarrow>
             (case err of
                Some e \<Rightarrow>
                  (out1 @ [Printf ''%-30s: Error resolving %s (server %s)\<newline>''
                             [S domain, E e, S server]],
                   Inr ())
              | None \<Rightarrow>
                  (case r of
                     None \<Rightarrow>
                       (out1 @ [Printf ''%-30s: No answer (Server %s)\<newline>'' [S domain, S server]],
                        Inr ())
                   | Some m \<Rightarrow>
                       if Rcode m \<noteq> RcodeSuccess then
                         (out1 @ [Printf ''%-30s: %s (Rcode %d, Server %s)\<newline>''
                                    [S domain, S (map_index rcode2string (Rcode m)),
                                     I (Rcode m), S server]],
                          Inr ())
                       else
                         (case resolv_loop verbose (Answer m)
                                 (out1 @ (if verbose then [Printf ''%-30s:'' [S domain]] else []))
                                 nslist of
                            (out, Inl a) \<Rightarrow> (out, Inl a)
                          | (out, Inr l) \<Rightarrow>
                              (out @ (if verbose then [Println []] else []), Inr ())))))"

text \<open>
  One statement of such a goroutine. When the body is left, by a return or by a panic,
  the deferred calls run, last deferred first: the receive, then \<open>wg.Done()\<close>. After
  them a panic goes on and ends the process.
\<close>

definition resolv_deferred_step :: "bool \<Rightarrow> fstate \<Rightarrow> nat \<Rightarrow> xresult \<Rightarrow> fstate option" where
  "resolv_deferred_step verbose s i x =
     (if pc s = Panicked \<or> pc s = Exited \<or> length (procs s) \<le> i then None
      else
        let g = procs s ! i in
        case g_phase g of
          Querying \<Rightarrow>
            (case resolv_deferred verbose (\<lambda>client query server. x) (g_domain g) (g_server g) of
               (ev, res) \<Rightarrow>
                 Some (s\<lparr>trace := trace s @ ev,
                         procs := (procs s)[i := g\<lparr>g_phase := Returned,
                                                   g_panicking := (case res of Inl a \<Rightarrow> True
                                                                   | Inr u \<Rightarrow> False)\<rparr>],
                         hist := hist s @ [Return i (g_result g)]\<rparr>))
        | Returned \<Rightarrow>
            if 0 < threads s then
              Some (s\<lparr>threads := threads s - 1,
                      procs := (procs s)[i := g\<lparr>g_phase := Released\<rparr>],
                      hist := hist s @ [Receive i]\<rparr>)
            else if closed s then
              Some (s\<lparr>procs := (procs s)[i := g\<lparr>g_phase := Released\<rparr>],
                      hist := hist s @ [Receive i]\<rparr>)
            else None
        | Released \<Rightarrow>
            if wg s = 0 then Some (s\<lparr>pc := Panicked\<rparr>)
            else if g_panicking g then
              Some (s\<lparr>wg := wg s - 1,
                      procs := (procs s)[i := g\<lparr>g_phase := Finished\<rparr>],
                      hist := hist s @ [WgDone i],
                      pc := Panicked\<rparr>)
            else Some (s\<lparr>wg := wg s - 1,
                         procs := (procs s)[i := g\<lparr>g_phase := Finished\<rparr>],
                         hist := hist s @ [WgDone i]\<rparr>)
        | Finished \<Rightarrow> None)"

fun step_deferred :: "bool \<Rightarrow> string list \<Rightarrow> fstate \<Rightarrow> label \<Rightarrow> fstate option" where
  "step_deferred verbose resolvers s Dispatcher = dispatcher_step resolvers s"
| "step_deferred verbose resolvers s (Goroutine i x) = resolv_deferred_step verbose s i x"
| "step_deferred verbose resolvers s (Rendezvous i) = rendezvous_step s i"

fun run_deferred :: "bool \<Rightarrow> string list \<Rightarrow> fstate \<Rightarrow> label list \<Rightarrow> fstate option" where
  "run_deferred verbose resolvers s [] = Some s"
| "run_deferred verbose resolvers s (l # ls) =
     (case step_deferred verbose resolvers s l of
        None \<Rightarrow> None
      | Some s' \<Rightarrow> run_deferred verbose resolvers s' ls)"

definition fastResolv_deferred :: "bool \<Rightarrow> nat \<Rightarrow> nat \<Rightarrow> string list \<Rightarrow> reader \<Rightarrow> label list \<Rightarrow> abort + fstate option" where
  "fastResolv_deferred verbose chan_limit concurrent resolvers domains sched =
     (case fastResolv_init chan_limit concurrent domains of
        Inl a \<Rightarrow> Inl a
      | Inr s \<Rightarrow> Inr (run_deferred verbose resolvers s sched))"

section \<open>main\<close>

text \<open>
  The flags are parsed by the library: \<open>verbose\<close>, \<open>fast\<close> and \<open>concurrent\<close> (an unsigned
  integer, 1 when the flag is absent) are their values, \<open>args\<close> the arguments left over.
  \<open>fopen\<close> is \<open>os.Open\<close>: \<open>None\<close> when it fails; \<open>chan_limit\<close> is the limit of \<open>make\<close>. On the sequential path \<open>main\<close> runs to its
  end; on the concurrent path it hands over to the transition system above, with the
  resolvers and the first state given.
\<close>

datatype handover = Slow_returned | Fast_started "string list" fstate

definition main :: "bool \<Rightarrow> bool \<Rightarrow> nat \<Rightarrow> nat \<Rightarrow> string \<Rightarrow> string list \<Rightarrow> string list option \<times> string \<Rightarrow> (string \<Rightarrow> reader option) \<Rightarrow> (nat \<Rightarrow> exchange) \<Rightarrow> event list \<times> (abort + handover)" where
  "main verbose fast chan_limit concurrent prog args conf fopen net =
     (if length args \<noteq> 1 then ([Printf ''Usage: %s [-v] <filename>\<newline>'' [S prog]], Inl (Exit 1))
      else
        case initResolvers verbose conf [] of
          (out, Inl a) \<Rightarrow> (out, Inl a)
        | (out, Inr resolvers) \<Rightarrow>
            (case fopen (args ! 0) of
               None \<Rightarrow> (out, Inl Panic)
             | Some f \<Rightarrow>
                 if fast then
                   (case fastResolv_init chan_limit concurrent f of
                      Inl a \<Rightarrow> (out, Inl a)
                    | Inr s \<Rightarrow> (out, Inr (Fast_started resolvers (s\<lparr>trace := out\<rparr>))))
                 else
                   (case slowResolv verbose resolvers net f of
                      (out', Inl a) \<Rightarrow> (out @ out', Inl a)
                    | (out', Inr u) \<Rightarrow> (out @ out', Inr Slow_returned))))"

section \<open>Reading a trace\<close>

text \<open>The queries in a trace: which name was asked of which server, in the order sent.\<close>

fun query_of :: "event \<Rightarrow> (string \<times> string) list" where
  "query_of (Exchange client query server) = map (\<lambda>q. (Name q, server)) (Question query)"
| "query_of e = []"

definition queries :: "event list \<Rightarrow> (string \<times> string) list" where
  "queries evs = concat (map query_of evs)"

text \<open>Round robin: the domain at position \<open>i\<close> with the resolver at index \<open>i mod M\<close>.\<close>

definition round_robin :: "string list \<Rightarrow> string list \<Rightarrow> (string \<times> string) list" where
  "round_robin resolvers domains =
     map (\<lambda>(i, d). (d, resolvers ! (i mod length resolvers))) (enumerate 0 domains)"

text \<open>
  A record as the library's unpacker builds it from a record with data: a header of
  type NS comes with the dynamic type \<open>*dns.NS\<close>.
\<close>

fun typed_RR :: "dns_RR \<Rightarrow> bool" where
  "typed_RR (NS h ns) = True"
| "typed_RR (OtherRR h) = (Rrtype h \<noteq> TypeNS)"

text \<open>The exchanges in a trace, with the client and the message of each.\<close>

fun exchange_of :: "event \<Rightarrow> (dns_Client \<times> dns_Msg \<times> string) list" where
  "exchange_of (Exchange client query server) = [(client, query, server)]"
| "exchange_of e = []"

definition exchanges :: "event list \<Rightarrow> (dns_Client \<times> dns_Msg \<times> string) list" where
  "exchanges evs = concat (map exchange_of evs)"

text \<open>What every call of \<open>resolv\<close> does first: the verbose line, then the exchange.\<close>

definition resolv_head :: "bool \<Rightarrow> string \<Rightarrow> string \<Rightarrow> event list" where
  "resolv_head verbose domain server =
     (if verbose then [Printf ''Resolving %s using %s\<newline>'' [S domain, S server]] else []) @
     [Exchange resolv_client (resolv_query domain) server]"

text \<open>An answer of the network whose records are all typed so.\<close>

definition typed_xresult :: "xresult \<Rightarrow> bool" where
  "typed_xresult x = (case fst x of None \<Rightarrow> True | Some m \<Rightarrow> list_all typed_RR (Answer m))"

text \<open>
  The three failures \<open>resolv\<close> tells apart: an error from the exchange, a nil response,
  a response code other than Success. A failed exchange is never looked into further.
\<close>

definition failed :: "xresult \<Rightarrow> bool" where
  "failed x = (snd x \<noteq> None \<or> (case fst x of None \<Rightarrow> True | Some m \<Rightarrow> Rcode m \<noteq> RcodeSuccess))"

definition typed_or_failed :: "xresult \<Rightarrow> bool" where
  "typed_or_failed x = (failed x \<or> typed_xresult x)"

section \<open>Reading a state of the dispatcher\<close>

text \<open>
  The queries in flight are the goroutines inside \<open>resolv\<close>. A goroutine holds a slot of
  the channel from its start until its receive.
\<close>

definition in_flight :: "fstate \<Rightarrow> nat" where
  "in_flight s = length (filter (\<lambda>g. g_phase g = Querying) (procs s))"

fun holds_slot :: "phase \<Rightarrow> bool" where
  "holds_slot Querying = True"
| "holds_slot Returned = True"
| "holds_slot p = False"

definition holders :: "goroutine list \<Rightarrow> nat" where
  "holders gs = length (filter (\<lambda>g. holds_slot (g_phase g)) gs)"

definition unfinished :: "goroutine list \<Rightarrow> nat" where
  "unfinished gs = length (filter (\<lambda>g. g_phase g \<noteq> Finished) gs)"

text \<open>What the dispatcher has done for the line in its hand: sent for it, added to the wait group for it.\<close>

fun at_go :: "dpc \<Rightarrow> nat" where
  "at_go (AtGo d) = 1"
| "at_go p = 0"

fun added :: "dpc \<Rightarrow> nat" where
  "added (AtSend d) = 1"
| "added (AtGo d) = 1"
| "added p = 0"

fun pending :: "dpc \<Rightarrow> string list" where
  "pending (AtAdd d) = [d]"
| "pending (AtSend d) = [d]"
| "pending (AtGo d) = [d]"
| "pending p = []"

text \<open>The goroutines started so far, in the order started: the domain and the resolver each was given.\<close>

definition dispatched :: "fstate \<Rightarrow> (string \<times> string) list" where
  "dispatched s = map (\<lambda>g. (g_domain g, g_server g)) (procs s)"

text \<open>Invariants of the run.\<close>

definition rr_inv :: "string list \<Rightarrow> string list \<Rightarrow> fstate \<Rightarrow> bool" where
  "rr_inv resolvers domains s =
     (dispatched s = take (length (procs s)) (round_robin resolvers domains) \<and>
      server_ix s = length (procs s) mod length resolvers \<and>
      (pc s \<noteq> Panicked \<longrightarrow> map g_domain (procs s) @ pending (pc s) @ scanner s = domains))"

definition bound_inv :: "nat \<Rightarrow> fstate \<Rightarrow> bool" where
  "bound_inv concurrent s =
     (holders (procs s) + at_go (pc s) \<le> threads s \<and> threads s \<le> threads_cap s \<and>
      threads_cap s = concurrent)"

definition sync_inv :: "fstate \<Rightarrow> bool" where
  "sync_inv s =
     (pc s \<noteq> Panicked \<longrightarrow>
        threads s = holders (procs s) + at_go (pc s) \<and>
        wg s = unfinished (procs s) + added (pc s) \<and>
        closed s = (pc s = Exited) \<and>
        ((pc s = AtClose \<or> pc s = Exited) \<longrightarrow> unfinished (procs s) = 0))"

text \<open>
  The life of goroutine \<open>i\<close> in the history: started, returned from \<open>resolv\<close> with \<open>r\<close>,
  received from \<open>threads\<close>, called \<open>wg.Done()\<close>.
\<close>

fun actor :: "action \<Rightarrow> nat option" where
  "actor (GoStmt i) = Some i"
| "actor (Return i r) = Some i"
| "actor (Receive i) = Some i"
| "actor (WgDone i) = Some i"
| "actor a = None"

fun phase_no :: "phase \<Rightarrow> nat" where
  "phase_no Querying = 1"
| "phase_no Returned = 2"
| "phase_no Released = 3"
| "phase_no Finished = 4"

definition lifecycle :: "nat \<Rightarrow> string list option \<Rightarrow> action list" where
  "lifecycle i r = [GoStmt i, Return i r, Receive i, WgDone i]"

definition history_of :: "nat \<Rightarrow> fstate \<Rightarrow> action list" where
  "history_of i s = filter (\<lambda>a. actor a = Some i) (hist s)"

definition hist_inv :: "fstate \<Rightarrow> bool" where
  "hist_inv s =
     (\<forall>i. history_of i s =
            (if i < length (procs s)
             then take (phase_no (g_phase (procs s ! i))) (lifecycle i (g_result (procs s ! i)))
             else []))"

text \<open>The goroutines that have been through their exchange: whom they asked.\<close>

definition queried :: "fstate \<Rightarrow> (string \<times> string) list" where
  "queried s =
     map (\<lambda>g. (g_domain g, g_server g)) (filter (\<lambda>g. g_phase g \<noteq> Querying) (procs s))"

definition trace_inv :: "fstate \<Rightarrow> bool" where
  "trace_inv s =
     (mset (queries (trace s)) \<subseteq># mset (dispatched s) \<and>
      (pc s \<noteq> Panicked \<longrightarrow> mset (queries (trace s)) = mset (queried s)))"

text \<open>Once the loop is left the scanner has no line left.\<close>

fun past_loop :: "dpc \<Rightarrow> bool" where
  "past_loop AtErr = True"
| "past_loop AtWait = True"
| "past_loop AtClose = True"
| "past_loop Exited = True"
| "past_loop p = False"

definition drained_inv :: "fstate \<Rightarrow> bool" where
  "drained_inv s = (past_loop (pc s) \<longrightarrow> scanner s = [])"

text \<open>
  The schedule that lets each goroutine run to its end before the next line is read;
  \<open>xs\<close> are the answers of the network, one for each line.
\<close>

fun serial_schedule :: "nat \<Rightarrow> xresult list \<Rightarrow> label list" where
  "serial_schedule i [] = [Dispatcher, Dispatcher, Dispatcher, Dispatcher]"
| "serial_schedule i (x # xs) =
     [Dispatcher, Dispatcher, Dispatcher, Dispatcher, Goroutine i x, Goroutine i x, Goroutine i x] @
     serial_schedule (Suc i) xs"

text \<open>The dispatcher between two lines, with no goroutine at work.\<close>

definition quiet :: "string list \<Rightarrow> fstate \<Rightarrow> bool" where
  "quiet resolvers s =
     (pc s = AtScan \<and> threads s = 0 \<and> wg s = 0 \<and> 0 < threads_cap s \<and>
      server_ix s < length resolvers)"

text \<open>
  A channel without buffer and no goroutine yet: the dispatcher is inside the loop with
  its first line, or the input had no line at all.
\<close>

definition unbuffered_inv :: "string list \<Rightarrow> fstate \<Rightarrow> bool" where
  "unbuffered_inv domains s =
     (procs s = [] \<and> exchanges (trace s) = [] \<and> threads_cap s = 0 \<and>
      (case pc s of
         AtScan \<Rightarrow> scanner s = domains
       | AtAdd d \<Rightarrow> d # scanner s = domains
       | AtSend d \<Rightarrow> d # scanner s = domains
       | AtGo d \<Rightarrow> False
       | Panicked \<Rightarrow> False
       | _ \<Rightarrow> domains = []))"

text \<open>
  A goroutine that has been through its exchange has its query in the trace, also when
  the process has ended in a panic.
\<close>

definition sent_inv :: "fstate \<Rightarrow> bool" where
  "sent_inv s = (mset (queried s) \<subseteq># mset (queries (trace s)))"

text \<open>
  A step of a schedule is calm when the answer it carries, if it is the step of a
  goroutine, is a failure or well typed; it is failing when that answer is a failure.
\<close>

fun calm :: "label \<Rightarrow> bool" where
  "calm (Goroutine i x) = typed_or_failed x"
| "calm l = True"

fun failing :: "label \<Rightarrow> bool" where
  "failing (Goroutine i x) = failed x"
| "failing l = True"

text \<open>
  A bound on the steps a state has left: for each line still to read seven (four of the
  dispatcher, three of its goroutine), for the dispatcher those from its program point
  to the next line or to the return, for each goroutine those to its end.
\<close>

fun dpc_weight :: "dpc \<Rightarrow> nat" where
  "dpc_weight (AtAdd d) = 10"
| "dpc_weight (AtSend d) = 9"
| "dpc_weight (AtGo d) = 8"
| "dpc_weight AtScan = 4"
| "dpc_weight AtErr = 3"
| "dpc_weight AtWait = 2"
| "dpc_weight AtClose = 1"
| "dpc_weight Exited = 0"
| "dpc_weight Panicked = 0"

fun phase_left :: "phase \<Rightarrow> nat" where
  "phase_left Querying = 3"
| "phase_left Returned = 2"
| "phase_left Released = 1"
| "phase_left Finished = 0"

definition steps_left :: "fstate \<Rightarrow> nat" where
  "steps_left s =
     7 * length (scanner s) + dpc_weight (pc s) +
     sum_list (map (\<lambda>g. phase_left (g_phase g)) (procs s))"

section \<open>An example run\<close>

text \<open>
  Two resolvers, three domains, room for two goroutines. The network lets the first
  exchange time out, answers the second with Name Error and the third with one NS record.
\<close>

definition example_resolvers :: "string list" where
  "example_resolvers = [''192.0.2.1:53'', ''[2001:db8::1]:53'']"

definition example_domains :: reader where
  "example_domains = ([''a.example.'', ''b.example.'', ''c.example.''], None)"

definition example_answer :: dns_Msg where
  "example_answer =
     new_Msg\<lparr>Answer := [NS \<lparr>Hname = ''c.example.'', Rrtype = 2\<rparr> ''ns.c.example.'']\<rparr>"

definition example_net :: "nat \<Rightarrow> exchange" where
  "example_net k client query server =
     (if k = 0 then (None, Some ''i/o timeout'')
      else if k = 1 then (Some (new_Msg\<lparr>Rcode := 3\<rparr>), None)
      else (Some example_answer, None))"

definition example_schedule :: "label list" where
  "example_schedule =
     [Dispatcher, Dispatcher, Dispatcher, Dispatcher,
      Dispatcher, Dispatcher, Dispatcher, Dispatcher,
      Goroutine 1 (Some (new_Msg\<lparr>Rcode := 3\<rparr>), None),
      Goroutine 0 (None, Some ''i/o timeout''),
      Goroutine 1 (None, None),
      Dispatcher, Dispatcher, Dispatcher, Dispatcher,
      Goroutine 0 (None, None), Goroutine 0 (None, None), Goroutine 1 (None, None),
      Goroutine 2 (Some example_answer, None), Goroutine 2 (None, None),
      Goroutine 2 (None, None),
      Dispatcher, Dispatcher, Dispatcher, Dispatcher]"

section \<open>Facts about the query executor\<close>

lemma exchanges_simps [simp]:
  "exchanges [] = []"
  "exchanges (e # es) = exchange_of e @ exchanges es"
  "exchanges (xs @ ys) = exchanges xs @ exchanges ys"
  by (simp_all add: exchanges_def)

lemma queries_simps [simp]:
  "queries [] = []"
  "queries (e # es) = query_of e @ queries es"
  "queries (xs @ ys) = queries xs @ queries ys"
  by (simp_all add: queries_def)

lemma ContainsAny_colon: "ContainsAny '':'' server = (CHR '':'' \<in> set server)"
  by (induction server) (auto simp: ContainsAny_def)

lemma initResolvers_loop_eq:
  "snd (initResolvers_loop verbose servers (out, resolvers)) = resolvers @ map endpoint servers"
  by (induction servers arbitrary: out resolvers) auto

lemma resolv_query_eq:
  "resolv_query domain =
     \<lparr>RecursionDesired = True, Rcode = 0,
      Question = [\<lparr>Name = domain, Qtype = TypeNS, Qclass = ClassINET\<rparr>], Answer = []\<rparr>"
  by (simp add: resolv_query_def SetQuestion_def new_Msg_def)

lemma resolv_loop_exchanges:
  "exchanges (fst (resolv_loop verbose ans out nslist)) = exchanges out"
  by (induction ans arbitrary: out nslist) (auto split: dns_RR.splits)

lemma resolv_loop_queries:
  "queries (fst (resolv_loop verbose ans out nslist)) = queries out"
  by (induction ans arbitrary: out nslist) (auto split: dns_RR.splits)

lemma resolv_loop_typed:
  "list_all typed_RR ans \<Longrightarrow>
   snd (resolv_loop verbose ans out nslist) =
     Inr (nslist @ [n. NS h n \<leftarrow> ans, Rrtype h = TypeNS])"
  by (induction ans arbitrary: out nslist) (auto split: dns_RR.splits)

lemma resolv_transport_error:
  "exch resolv_client (resolv_query domain) server = (r, Some e) \<Longrightarrow>
   resolv verbose exch domain server =
     (resolv_head verbose domain server @
        [Printf ''Error resolving %s from %s \<newline>'' [S domain, S server, E e]],
      Inr None)"
  by (simp add: resolv_def resolv_head_def)

lemma resolv_nil_response:
  "exch resolv_client (resolv_query domain) server = (None, None) \<Longrightarrow>
   resolv verbose exch domain server =
     (resolv_head verbose domain server @
        [Printf ''Error resolving %s from %s\<newline>'' [S domain, S server]],
      Inr None)"
  by (simp add: resolv_def resolv_head_def)

lemma resolv_rcode:
  "exch resolv_client (resolv_query domain) server = (Some m, None) \<Longrightarrow>
   Rcode m \<noteq> RcodeSuccess \<Longrightarrow>
   resolv verbose exch domain server =
     (resolv_head verbose domain server @
        [Printf ''Error resolving %s from %s (Rcode %d %s)\<newline>''
           [S domain, S server, I (Rcode m), S (map_index rcode2string (Rcode m))]],
      Inr None)"
  by (simp add: resolv_def resolv_head_def)

lemma resolv_success:
  "exch resolv_client (resolv_query domain) server = (Some m, None) \<Longrightarrow>
   Rcode m = RcodeSuccess \<Longrightarrow>
   resolv verbose exch domain server =
     (case resolv_loop verbose (Answer m)
             (resolv_head verbose domain server @
                (if verbose then [Printf ''%-30s:'' [S domain]] else [])) [] of
        (out, Inl a) \<Rightarrow> (out, Inl a)
      | (out, Inr l) \<Rightarrow> (out @ (if verbose then [Println []] else []), Inr (Some l)))"
  by (simp add: resolv_def resolv_head_def)

lemma resolv_cases:
  obtains (transport) r e where "exch resolv_client (resolv_query domain) server = (r, Some e)"
  | (nil) "exch resolv_client (resolv_query domain) server = (None, None)"
  | (rcode) m where "exch resolv_client (resolv_query domain) server = (Some m, None)"
      and "Rcode m \<noteq> RcodeSuccess"
  | (success) m where "exch resolv_client (resolv_query domain) server = (Some m, None)"
      and "Rcode m = RcodeSuccess"
proof (cases "exch resolv_client (resolv_query domain) server")
  case (Pair r err)
  then show ?thesis
    by (cases err; cases r) (auto intro: transport nil rcode success)
qed

lemma exchanges_resolv_head [simp]:
  "exchanges (resolv_head verbose domain server) = [(resolv_client, resolv_query domain, server)]"
  by (simp add: resolv_head_def)

lemma queries_resolv_head [simp]:
  "queries (resolv_head verbose domain server) = [(domain, server)]"
  by (simp add: resolv_head_def resolv_query_eq)

lemma resolv_exchanges:
  "exchanges (fst (resolv verbose exch domain server)) =
     [(resolv_client, resolv_query domain, server)]"
proof (cases rule: resolv_cases [of exch domain server])
  case (transport r e)
  then show ?thesis by (simp add: resolv_transport_error)
next
  case nil
  then show ?thesis by (simp add: resolv_nil_response)
next
  case (rcode m)
  then show ?thesis by (simp add: resolv_rcode)
next
  case (success m)
  let ?l = "resolv_loop verbose (Answer m)
             (resolv_head verbose domain server @
                (if verbose then [Printf ''%-30s:'' [S domain]] else [])) []"
  have "exchanges (fst ?l) = [(resolv_client, resolv_query domain, server)]"
    by (simp add: resolv_loop_exchanges)
  then show ?thesis
    using success
    by (cases ?l; cases "snd ?l") (auto simp: resolv_success)
qed

lemma resolv_queries:
  "queries (fst (resolv verbose exch domain server)) = [(domain, server)]"
proof (cases rule: resolv_cases [of exch domain server])
  case (transport r e)
  then show ?thesis by (simp add: resolv_transport_error)
next
  case nil
  then show ?thesis by (simp add: resolv_nil_response)
next
  case (rcode m)
  then show ?thesis by (simp add: resolv_rcode)
next
  case (success m)
  let ?l = "resolv_loop verbose (Answer m)
             (resolv_head verbose domain server @
                (if verbose then [Printf ''%-30s:'' [S domain]] else [])) []"
  have "queries (fst ?l) = [(domain, server)]"
    by (simp add: resolv_loop_queries)
  then show ?thesis
    using success
    by (cases ?l; cases "snd ?l") (auto simp: resolv_success)
qed

lemma resolv_returns:
  assumes "typed_xresult (exch resolv_client (resolv_query domain) server)"
  shows "\<exists>nslist. snd (resolv verbose exch domain server) = Inr nslist"
proof (cases rule: resolv_cases [of exch domain server])
  case (transport r e)
  then show ?thesis by (simp add: resolv_transport_error)
next
  case nil
  then show ?thesis by (simp add: resolv_nil_response)
next
  case (rcode m)
  then show ?thesis by (simp add: resolv_rcode)
next
  case (success m)
  let ?l = "resolv_loop verbose (Answer m)
             (resolv_head verbose domain server @
                (if verbose then [Printf ''%-30s:'' [S domain]] else [])) []"
  from assms success have "list_all typed_RR (Answer m)"
    by (simp add: typed_xresult_def)
  then have "snd ?l = Inr ([] @ [n. NS h n \<leftarrow> Answer m, Rrtype h = TypeNS])"
    by (rule resolv_loop_typed)
  then show ?thesis
    using success
    by (cases ?l) (auto simp: resolv_success)
qed

lemma resolv_returns_or_failed:
  assumes "typed_or_failed (exch resolv_client (resolv_query domain) server)"
  shows "\<exists>nslist. snd (resolv verbose exch domain server) = Inr nslist"
proof (cases rule: resolv_cases [of exch domain server])
  case (transport r e)
  then show ?thesis by (simp add: resolv_transport_error)
next
  case nil
  then show ?thesis by (simp add: resolv_nil_response)
next
  case (rcode m)
  then show ?thesis by (simp add: resolv_rcode)
next
  case (success m)
  with assms have "typed_xresult (exch resolv_client (resolv_query domain) server)"
    by (simp add: typed_or_failed_def failed_def)
  then show ?thesis by (rule resolv_returns)
qed

lemma slowResolv_loop_round_robin:
  assumes "resolvers \<noteq> []"
    and "\<And>j d s. typed_or_failed (net j resolv_client (resolv_query d) s)"
  shows "slowResolv_loop verbose resolvers net k ds (n mod length resolvers) = (out, res) \<Longrightarrow>
         res = Inr () \<and>
         queries out = map (\<lambda>(i, d). (d, resolvers ! (i mod length resolvers))) (enumerate n ds)"
proof (induction ds arbitrary: k n out res)
  case Nil
  then show ?case by simp
next
  case (Cons d ds)
  let ?M = "length resolvers"
  from assms(1) have lt: "n mod ?M < ?M" by simp
  obtain o1 r1 where r: "resolv verbose (net k) d (resolvers ! (n mod ?M)) = (o1, r1)"
    by (cases "resolv verbose (net k) d (resolvers ! (n mod ?M))")
  from resolv_returns_or_failed [of "net k" d "resolvers ! (n mod ?M)" verbose] assms(2) r
  obtain nslist where r1: "r1 = Inr nslist" by auto
  from resolv_queries [of verbose "net k" d "resolvers ! (n mod ?M)"] r
  have q1: "queries o1 = [(d, resolvers ! (n mod ?M))]" by simp
  obtain o2 r2 where l: "slowResolv_loop verbose resolvers net (Suc k) ds (Suc n mod ?M) = (o2, r2)"
    by (cases "slowResolv_loop verbose resolvers net (Suc k) ds (Suc n mod ?M)")
  from Cons.IH [OF l] have ih: "r2 = Inr ()"
    "queries o2 = map (\<lambda>(i, d). (d, resolvers ! (i mod ?M))) (enumerate (Suc n) ds)"
    by simp_all
  have "(n mod ?M + 1) mod ?M = Suc n mod ?M"
    by (simp add: mod_Suc_eq)
  with Cons.prems lt r r1 l have "out = o1 @ o2" "res = r2"
    by simp_all
  with q1 ih show ?case by simp
qed

section \<open>Facts about the dispatcher\<close>

lemma run_invariant:
  assumes "\<And>s l s'. step verbose resolvers s l = Some s' \<Longrightarrow> P s \<Longrightarrow> P s'"
  shows "run verbose resolvers s ls = Some s' \<Longrightarrow> P s \<Longrightarrow> P s'"
proof (induction ls arbitrary: s)
  case Nil
  then show ?case by simp
next
  case (Cons l ls)
  then show ?case
    by (auto split: option.splits intro: assms)
qed

lemma fastResolv_run:
  assumes "fastResolv verbose chan_limit concurrent resolvers domains sched = Inr (Some s)"
  shows "run verbose resolvers (fastResolv_start concurrent domains) sched = Some s"
    and "concurrent \<le> chan_limit"
  using assms
  by (auto simp: fastResolv_def fastResolv_init_def make_chan_def split: if_splits)

lemma fastResolv_make_fails:
  "chan_limit < concurrent \<Longrightarrow>
   fastResolv verbose chan_limit concurrent resolvers domains sched = Inl Panic"
  by (simp add: fastResolv_def fastResolv_init_def make_chan_def)

lemma filter_update_count:
  "i < length xs \<Longrightarrow>
   length (filter P (xs[i := y])) + (if P (xs ! i) then 1 else 0) =
   length (filter P xs) + (if P y then 1 else 0)"
proof (induction xs arbitrary: i)
  case Nil
  then show ?case by simp
next
  case (Cons x xs)
  then show ?case by (cases i) auto
qed

lemma map_update_same:
  "i < length xs \<Longrightarrow> f y = f (xs ! i) \<Longrightarrow> map f (xs[i := y]) = map f xs"
  by (simp add: map_update list_update_same_conv)

lemma length_round_robin [simp]: "length (round_robin rs ds) = length ds"
  by (simp add: round_robin_def)

lemma nth_round_robin:
  "i < length ds \<Longrightarrow> round_robin rs ds ! i = (ds ! i, rs ! (i mod length rs))"
  by (simp add: round_robin_def nth_enumerate_eq)

lemma rr_inv_init: "rr_inv resolvers (fst domains) (fastResolv_start concurrent domains)"
  by (simp add: rr_inv_def fastResolv_start_def dispatched_def)

lemma dispatcher_step_rr_inv:
  assumes "resolvers \<noteq> []"
    and "dispatcher_step resolvers s = Some s'"
    and "rr_inv resolvers domains s"
  shows "rr_inv resolvers domains s'"
proof (cases "pc s")
  case (AtGo d)
  let ?n = "length (procs s)"
  from assms(3) AtGo have dom: "map g_domain (procs s) @ d # scanner s = domains"
    and ix: "server_ix s = ?n mod length resolvers"
    and disp: "dispatched s = take ?n (round_robin resolvers domains)"
    by (simp_all add: rr_inv_def)
  from dom have n: "?n < length domains" and d: "domains ! ?n = d"
    by (auto simp: nth_append)
  from assms(1) ix have lt: "server_ix s < length resolvers" by simp
  have "take (Suc ?n) (round_robin resolvers domains) =
          take ?n (round_robin resolvers domains) @ [(d, resolvers ! (?n mod length resolvers))]"
    using n d by (simp add: take_Suc_conv_app_nth nth_round_robin)
  with assms(2) AtGo lt dom ix disp show ?thesis
    by (auto simp: dispatcher_step_def rr_inv_def dispatched_def mod_Suc_eq)
next
  case AtScan
  with assms(2,3) show ?thesis
    by (auto simp: dispatcher_step_def rr_inv_def dispatched_def split: list.splits)
qed (use assms(2,3) in \<open>auto simp: dispatcher_step_def rr_inv_def dispatched_def split: if_splits\<close>)

lemma resolv2_step_rr_inv:
  assumes "resolv2_step verbose s i x = Some s'"
    and "rr_inv resolvers domains s"
  shows "rr_inv resolvers domains s'"
  using assms
  by (auto simp: resolv2_step_def rr_inv_def dispatched_def Let_def map_update_same
           split: if_splits phase.splits prod.splits sum.splits)

lemma rendezvous_step_rr_inv:
  assumes "rendezvous_step s i = Some s'"
    and "rr_inv resolvers domains s"
  shows "rr_inv resolvers domains s'"
  using assms
  by (auto simp: rendezvous_step_def rr_inv_def dispatched_def map_update_same
           split: if_splits dpc.splits)

lemma step_rr_inv:
  assumes "resolvers \<noteq> []"
    and "step verbose resolvers s l = Some s'"
    and "rr_inv resolvers domains s"
  shows "rr_inv resolvers domains s'"
  using assms
  by (cases l) (auto intro: dispatcher_step_rr_inv resolv2_step_rr_inv rendezvous_step_rr_inv)

lemma fastResolv_rr_inv:
  assumes "resolvers \<noteq> []"
    and "fastResolv verbose chan_limit concurrent resolvers domains sched = Inr (Some s)"
  shows "rr_inv resolvers (fst domains) s"
  using fastResolv_run(1) [OF assms(2)] rr_inv_init [of resolvers domains concurrent]
  by (rule run_invariant [where P = "rr_inv resolvers (fst domains)", rotated]) (rule step_rr_inv [OF assms(1)])


lemma bound_inv_init: "bound_inv concurrent (fastResolv_start concurrent domains)"
  by (simp add: bound_inv_def fastResolv_start_def holders_def)

lemma sync_inv_init: "sync_inv (fastResolv_start concurrent domains)"
  by (simp add: sync_inv_def fastResolv_start_def holders_def unfinished_def)

lemma holders_update:
  "i < length gs \<Longrightarrow>
   holders (gs[i := g]) + (if holds_slot (g_phase (gs ! i)) then 1 else 0) =
   holders gs + (if holds_slot (g_phase g) then 1 else 0)"
  unfolding holders_def by (rule filter_update_count)

lemma unfinished_update:
  "i < length gs \<Longrightarrow>
   unfinished (gs[i := g]) + (if g_phase (gs ! i) \<noteq> Finished then 1 else 0) =
   unfinished gs + (if g_phase g \<noteq> Finished then 1 else 0)"
  unfolding unfinished_def by (rule filter_update_count)

lemma holders_snoc [simp]: "holders (gs @ [g]) = holders gs + (if holds_slot (g_phase g) then 1 else 0)"
  by (simp add: holders_def)

lemma unfinished_snoc [simp]:
  "unfinished (gs @ [g]) = unfinished gs + (if g_phase g \<noteq> Finished then 1 else 0)"
  by (simp add: unfinished_def)

lemma resolv2_step_cases [consumes 1, case_names panic return receive receive_closed wg_panic wg_done]:
  assumes "resolv2_step verbose s i x = Some s'"
  obtains
    (panic) ev a where "i < length (procs s)" "pc s \<noteq> Panicked" "pc s \<noteq> Exited"
      "g_phase (procs s ! i) = Querying"
      "resolv verbose (\<lambda>client query server. x) (g_domain (procs s ! i)) (g_server (procs s ! i)) = (ev, Inl a)"
      "s' = s\<lparr>trace := trace s @ ev, pc := Panicked\<rparr>"
  | (return) ev nslist where "i < length (procs s)" "pc s \<noteq> Panicked" "pc s \<noteq> Exited"
      "g_phase (procs s ! i) = Querying"
      "resolv verbose (\<lambda>client query server. x) (g_domain (procs s ! i)) (g_server (procs s ! i)) = (ev, Inr nslist)"
      "s' = s\<lparr>trace := trace s @ ev,
               procs := (procs s)[i := (procs s ! i)\<lparr>g_phase := Returned, g_result := nslist\<rparr>],
               hist := hist s @ [Return i nslist]\<rparr>"
  | (receive) "i < length (procs s)" "pc s \<noteq> Panicked" "pc s \<noteq> Exited"
      "g_phase (procs s ! i) = Returned" "0 < threads s"
      "s' = s\<lparr>threads := threads s - 1,
               procs := (procs s)[i := (procs s ! i)\<lparr>g_phase := Released\<rparr>],
               hist := hist s @ [Receive i]\<rparr>"
  | (receive_closed) "i < length (procs s)" "pc s \<noteq> Panicked" "pc s \<noteq> Exited"
      "g_phase (procs s ! i) = Returned" "threads s = 0" "closed s"
      "s' = s\<lparr>procs := (procs s)[i := (procs s ! i)\<lparr>g_phase := Released\<rparr>],
               hist := hist s @ [Receive i]\<rparr>"
  | (wg_panic) "i < length (procs s)" "pc s \<noteq> Panicked" "pc s \<noteq> Exited"
      "g_phase (procs s ! i) = Released" "wg s = 0" "s' = s\<lparr>pc := Panicked\<rparr>"
  | (wg_done) "i < length (procs s)" "pc s \<noteq> Panicked" "pc s \<noteq> Exited"
      "g_phase (procs s ! i) = Released" "0 < wg s"
      "s' = s\<lparr>wg := wg s - 1,
               procs := (procs s)[i := (procs s ! i)\<lparr>g_phase := Finished\<rparr>],
               hist := hist s @ [WgDone i]\<rparr>"
proof -
  from assms have i: "i < length (procs s)" "pc s \<noteq> Panicked" "pc s \<noteq> Exited"
    by (auto simp: resolv2_step_def split: if_splits)
  show ?thesis
  proof (cases "g_phase (procs s ! i)")
    case Querying
    obtain ev res where
      r: "resolv verbose (\<lambda>client query server. x) (g_domain (procs s ! i)) (g_server (procs s ! i)) = (ev, res)"
      by (cases "resolv verbose (\<lambda>client query server. x) (g_domain (procs s ! i)) (g_server (procs s ! i))")
    show ?thesis
    proof (cases res)
      case (Inl a)
      with assms i Querying r show ?thesis
        by (intro panic [of ev a]) (simp_all add: resolv2_step_def)
    next
      case (Inr nslist)
      with assms i Querying r show ?thesis
        by (intro return [of ev nslist]) (simp_all add: resolv2_step_def)
    qed
  next
    case Returned
    show ?thesis
    proof (cases "0 < threads s")
      case True
      with assms i Returned show ?thesis
        by (intro receive) (simp_all add: resolv2_step_def)
    next
      case False
      with assms i Returned show ?thesis
        by (intro receive_closed) (simp_all add: resolv2_step_def split: if_splits)
    qed
  next
    case Released
    show ?thesis
    proof (cases "wg s = 0")
      case True
      with assms i Released show ?thesis
        by (intro wg_panic) (simp_all add: resolv2_step_def)
    next
      case False
      with assms i Released show ?thesis
        by (intro wg_done) (simp_all add: resolv2_step_def)
    qed
  next
    case Finished
    with assms i show ?thesis
      by (simp add: resolv2_step_def)
  qed
qed

lemma dispatcher_step_bound_inv:
  assumes "dispatcher_step resolvers s = Some s'"
    and "bound_inv concurrent s"
  shows "bound_inv concurrent s'"
  using assms
  by (cases "pc s")
     (auto simp: dispatcher_step_def bound_inv_def split: if_splits list.splits)

lemma resolv2_step_bound_inv:
  assumes "resolv2_step verbose s i x = Some s'"
    and "bound_inv concurrent s"
  shows "bound_inv concurrent s'"
  using assms(1)
proof (cases rule: resolv2_step_cases)
  case (panic ev a)
  with assms(2) show ?thesis by (auto simp: bound_inv_def)
next
  case (return ev nslist)
  with assms(2) holders_update [of i "procs s" "(procs s ! i)\<lparr>g_phase := Returned, g_result := nslist\<rparr>"]
  show ?thesis by (auto simp: bound_inv_def)
next
  case receive
  with assms(2) holders_update [of i "procs s" "(procs s ! i)\<lparr>g_phase := Released\<rparr>"]
  show ?thesis by (auto simp: bound_inv_def)
next
  case receive_closed
  with assms(2) holders_update [of i "procs s" "(procs s ! i)\<lparr>g_phase := Released\<rparr>"]
  show ?thesis by (auto simp: bound_inv_def)
next
  case wg_panic
  with assms(2) show ?thesis by (auto simp: bound_inv_def)
next
  case wg_done
  with assms(2) holders_update [of i "procs s" "(procs s ! i)\<lparr>g_phase := Finished\<rparr>"]
  show ?thesis by (auto simp: bound_inv_def)
qed

lemma rendezvous_step_cases [consumes 1, case_names rendezvous]:
  assumes "rendezvous_step s i = Some s'"
  obtains d where "pc s = AtSend d" "threads_cap s = 0" "i < length (procs s)"
    "g_phase (procs s ! i) = Returned"
    "s' = s\<lparr>pc := AtGo d,
             procs := (procs s)[i := (procs s ! i)\<lparr>g_phase := Released\<rparr>],
             hist := hist s @ [Send, Receive i]\<rparr>"
  using assms
  by (cases "pc s") (auto simp: rendezvous_step_def split: if_splits)

lemma rendezvous_step_bound_inv:
  assumes "rendezvous_step s i = Some s'"
    and "bound_inv concurrent s"
  shows "bound_inv concurrent s'"
  using assms(1)
proof (cases rule: rendezvous_step_cases)
  case (rendezvous d)
  with assms(2) holders_update [of i "procs s" "(procs s ! i)\<lparr>g_phase := Released\<rparr>"]
  show ?thesis by (auto simp: bound_inv_def)
qed

lemma step_bound_inv:
  assumes "step verbose resolvers s l = Some s'"
    and "bound_inv concurrent s"
  shows "bound_inv concurrent s'"
  using assms
  by (cases l)
     (auto intro: dispatcher_step_bound_inv resolv2_step_bound_inv rendezvous_step_bound_inv)

lemma fastResolv_bound_inv:
  assumes "fastResolv verbose chan_limit concurrent resolvers domains sched = Inr (Some s)"
  shows "bound_inv concurrent s"
  using fastResolv_run(1) [OF assms] bound_inv_init [of concurrent domains]
  by (rule run_invariant [where P = "bound_inv concurrent", rotated]) (rule step_bound_inv)

lemma in_flight_le_holders: "in_flight s \<le> holders (procs s)"
proof -
  have "length (filter (\<lambda>g. g_phase g = Querying) gs) \<le>
        length (filter (\<lambda>g. holds_slot (g_phase g)) gs)" for gs
    by (induction gs) auto
  then show ?thesis by (simp add: in_flight_def holders_def)
qed

lemma unfinished_pos:
  "i < length gs \<Longrightarrow> g_phase (gs ! i) \<noteq> Finished \<Longrightarrow> 0 < unfinished gs"
  by (auto simp: unfinished_def filter_empty_conv intro!: bexI [of _ "gs ! i"])

lemma dispatcher_step_sync_inv:
  assumes "dispatcher_step resolvers s = Some s'"
    and "sync_inv s"
  shows "sync_inv s'"
  using assms
  by (cases "pc s")
     (auto simp: dispatcher_step_def sync_inv_def split: if_splits list.splits)

lemma resolv2_step_sync_inv:
  assumes "resolv2_step verbose s i x = Some s'"
    and "sync_inv s"
  shows "sync_inv s'"
  using assms(1)
proof (cases rule: resolv2_step_cases)
  case (panic ev a)
  then show ?thesis by (simp add: sync_inv_def)
next
  case (return ev nslist)
  with assms(2) unfinished_pos [of i "procs s"]
    holders_update [of i "procs s" "(procs s ! i)\<lparr>g_phase := Returned, g_result := nslist\<rparr>"]
    unfinished_update [of i "procs s" "(procs s ! i)\<lparr>g_phase := Returned, g_result := nslist\<rparr>"]
  show ?thesis by (auto simp: sync_inv_def)
next
  case receive
  with assms(2) unfinished_pos [of i "procs s"]
    holders_update [of i "procs s" "(procs s ! i)\<lparr>g_phase := Released\<rparr>"]
    unfinished_update [of i "procs s" "(procs s ! i)\<lparr>g_phase := Released\<rparr>"]
  show ?thesis by (auto simp: sync_inv_def)
next
  case receive_closed
  with assms(2) show ?thesis by (auto simp: sync_inv_def)
next
  case wg_panic
  then show ?thesis by (simp add: sync_inv_def)
next
  case wg_done
  with assms(2) unfinished_pos [of i "procs s"]
    holders_update [of i "procs s" "(procs s ! i)\<lparr>g_phase := Finished\<rparr>"]
    unfinished_update [of i "procs s" "(procs s ! i)\<lparr>g_phase := Finished\<rparr>"]
  show ?thesis by (auto simp: sync_inv_def)
qed

lemma rendezvous_step_sync_inv:
  assumes "rendezvous_step s i = Some s'"
    and "sync_inv s"
  shows "sync_inv s'"
  using assms(1)
proof (cases rule: rendezvous_step_cases)
  case (rendezvous d)
  with assms(2) 
    holders_update [of i "procs s" "(procs s ! i)\<lparr>g_phase := Released\<rparr>"]
    unfinished_update [of i "procs s" "(procs s ! i)\<lparr>g_phase := Released\<rparr>"]
  show ?thesis by (auto simp: sync_inv_def)
qed

lemma step_sync_inv:
  assumes "step verbose resolvers s l = Some s'"
    and "sync_inv s"
  shows "sync_inv s'"
  using assms
  by (cases l)
     (auto intro: dispatcher_step_sync_inv resolv2_step_sync_inv rendezvous_step_sync_inv)

lemma fastResolv_sync_inv:
  assumes "fastResolv verbose chan_limit concurrent resolvers domains sched = Inr (Some s)"
  shows "sync_inv s"
  using fastResolv_run(1) [OF assms] sync_inv_init [of concurrent domains]
  by (rule run_invariant [where P = sync_inv, rotated]) (rule step_sync_inv)


lemma hist_inv_init: "hist_inv (fastResolv_start concurrent domains)"
  by (simp add: hist_inv_def history_of_def fastResolv_start_def)

lemma dispatcher_step_hist_inv:
  assumes "dispatcher_step resolvers s = Some s'"
    and "hist_inv s"
  shows "hist_inv s'"
proof (cases "pc s")
  case (AtGo d)
  show ?thesis
  proof (cases "server_ix s < length resolvers")
    case True
    with assms AtGo show ?thesis
      by (auto simp: dispatcher_step_def hist_inv_def history_of_def nth_append lifecycle_def)
  next
    case False
    with assms AtGo show ?thesis
      by (auto simp: dispatcher_step_def hist_inv_def history_of_def)
  qed
qed (use assms in \<open>auto simp: dispatcher_step_def hist_inv_def history_of_def split: if_splits list.splits\<close>)

lemma take_lifecycle:
  "take 1 (lifecycle i r) = [GoStmt i]"
  "take 2 (lifecycle i r) = [GoStmt i, Return i r]"
  "take 3 (lifecycle i r) = [GoStmt i, Return i r, Receive i]"
  "take 4 (lifecycle i r) = [GoStmt i, Return i r, Receive i, WgDone i]"
  "take (Suc 0) (lifecycle i r) = [GoStmt i]"
  by (simp_all add: lifecycle_def)

lemma resolv2_step_hist_inv:
  assumes "resolv2_step verbose s i x = Some s'"
    and "hist_inv s"
  shows "hist_inv s'"
  using assms(1)
proof (cases rule: resolv2_step_cases)
  case (panic ev a)
  with assms(2) show ?thesis by (simp add: hist_inv_def history_of_def)
next
  case (return ev nslist)
  from assms(2) have h: "history_of j s =
            (if j < length (procs s)
             then take (phase_no (g_phase (procs s ! j))) (lifecycle j (g_result (procs s ! j)))
             else [])" for j
    by (simp add: hist_inv_def)
  show ?thesis
    unfolding hist_inv_def
  proof
    fix j
    show "history_of j s' =
            (if j < length (procs s')
             then take (phase_no (g_phase (procs s' ! j))) (lifecycle j (g_result (procs s' ! j)))
             else [])"
      using h [of j] return
      by (cases "j = i") (auto simp: history_of_def take_lifecycle)
  qed
next
  case receive
  from assms(2) have h: "history_of j s =
            (if j < length (procs s)
             then take (phase_no (g_phase (procs s ! j))) (lifecycle j (g_result (procs s ! j)))
             else [])" for j
    by (simp add: hist_inv_def)
  show ?thesis
    unfolding hist_inv_def
  proof
    fix j
    show "history_of j s' =
            (if j < length (procs s')
             then take (phase_no (g_phase (procs s' ! j))) (lifecycle j (g_result (procs s' ! j)))
             else [])"
      using h [of j] receive
      by (cases "j = i") (auto simp: history_of_def take_lifecycle)
  qed
next
  case receive_closed
  from assms(2) have h: "history_of j s =
            (if j < length (procs s)
             then take (phase_no (g_phase (procs s ! j))) (lifecycle j (g_result (procs s ! j)))
             else [])" for j
    by (simp add: hist_inv_def)
  show ?thesis
    unfolding hist_inv_def
  proof
    fix j
    show "history_of j s' =
            (if j < length (procs s')
             then take (phase_no (g_phase (procs s' ! j))) (lifecycle j (g_result (procs s' ! j)))
             else [])"
      using h [of j] receive_closed
      by (cases "j = i") (auto simp: history_of_def take_lifecycle)
  qed
next
  case wg_panic
  with assms(2) show ?thesis by (simp add: hist_inv_def history_of_def)
next
  case wg_done
  from assms(2) have h: "history_of j s =
            (if j < length (procs s)
             then take (phase_no (g_phase (procs s ! j))) (lifecycle j (g_result (procs s ! j)))
             else [])" for j
    by (simp add: hist_inv_def)
  show ?thesis
    unfolding hist_inv_def
  proof
    fix j
    show "history_of j s' =
            (if j < length (procs s')
             then take (phase_no (g_phase (procs s' ! j))) (lifecycle j (g_result (procs s' ! j)))
             else [])"
      using h [of j] wg_done
      by (cases "j = i") (auto simp: history_of_def take_lifecycle)
  qed
qed

lemma rendezvous_step_hist_inv:
  assumes "rendezvous_step s i = Some s'"
    and "hist_inv s"
  shows "hist_inv s'"
  using assms(1)
proof (cases rule: rendezvous_step_cases)
  case (rendezvous d)
  from assms(2) have h: "history_of j s =
            (if j < length (procs s)
             then take (phase_no (g_phase (procs s ! j))) (lifecycle j (g_result (procs s ! j)))
             else [])" for j
    by (simp add: hist_inv_def)
  show ?thesis
    unfolding hist_inv_def
  proof
    fix j
    show "history_of j s' =
            (if j < length (procs s')
             then take (phase_no (g_phase (procs s' ! j))) (lifecycle j (g_result (procs s' ! j)))
             else [])"
      using h [of j] rendezvous
      by (cases "j = i") (auto simp: history_of_def take_lifecycle)
  qed
qed

lemma step_hist_inv:
  assumes "step verbose resolvers s l = Some s'"
    and "hist_inv s"
  shows "hist_inv s'"
  using assms
  by (cases l)
     (auto intro: dispatcher_step_hist_inv resolv2_step_hist_inv rendezvous_step_hist_inv)

lemma fastResolv_hist_inv:
  assumes "fastResolv verbose chan_limit concurrent resolvers domains sched = Inr (Some s)"
  shows "hist_inv s"
  using fastResolv_run(1) [OF assms] hist_inv_init [of concurrent domains]
  by (rule run_invariant [where P = hist_inv, rotated]) (rule step_hist_inv)


lemma mset_filter_update:
  assumes "i < length xs"
  shows "mset (map f (filter P (xs[i := y]))) + (if P (xs ! i) then {#f (xs ! i)#} else {#}) =
         mset (map f (filter P xs)) + (if P y then {#f y#} else {#})"
proof -
  define L R x where "L = take i xs" and "R = drop (Suc i) xs" and "x = xs ! i"
  from assms have xs: "xs = L @ x # R"
    unfolding L_def R_def x_def by (rule id_take_nth_drop)
  from assms have upd: "xs[i := y] = L @ y # R"
    unfolding L_def R_def by (rule upd_conv_take_nth_drop)
  have e: "mset (map f (filter P (L @ y # R))) + (if P x then {#f x#} else {#}) =
        mset (map f (filter P (L @ x # R))) + (if P y then {#f y#} else {#})"
    by simp
  show ?thesis
    unfolding upd x_def [symmetric] by (subst xs) (rule e)
qed

lemma mset_filter_subset:
  "i < length xs \<Longrightarrow> \<not> P (xs ! i) \<Longrightarrow>
   mset (map f (filter P xs)) + {#f (xs ! i)#} \<subseteq># mset (map f xs)"
proof (induction xs arbitrary: i)
  case Nil
  then show ?case by simp
next
  case (Cons x xs)
  show ?case
  proof (cases i)
    case 0
    have "mset (map f (filter P xs)) \<subseteq># mset (map f xs)"
      by (simp add: image_mset_subseteq_mono)
    with Cons.prems 0 show ?thesis by simp
  next
    case (Suc j)
    with Cons.prems Cons.IH [of j] show ?thesis
      by (auto intro: subset_mset.order_trans)
  qed
qed

lemma queried_update:
  "i < length (procs s) \<Longrightarrow>
   mset (map (\<lambda>g. (g_domain g, g_server g))
          (filter (\<lambda>g. g_phase g \<noteq> Querying) ((procs s)[i := g]))) +
     (if g_phase (procs s ! i) \<noteq> Querying
      then {#(g_domain (procs s ! i), g_server (procs s ! i))#} else {#}) =
   mset (queried s) + (if g_phase g \<noteq> Querying then {#(g_domain g, g_server g)#} else {#})"
  unfolding queried_def by (rule mset_filter_update)

lemma queried_subset:
  "i < length (procs s) \<Longrightarrow> g_phase (procs s ! i) = Querying \<Longrightarrow>
   mset (queried s) + {#(g_domain (procs s ! i), g_server (procs s ! i))#} \<subseteq># mset (dispatched s)"
  unfolding queried_def dispatched_def
  using mset_filter_subset [of i "procs s" "\<lambda>g. g_phase g \<noteq> Querying" "\<lambda>g. (g_domain g, g_server g)"]
  by simp

lemma trace_inv_init: "trace_inv (fastResolv_start concurrent domains)"
  by (simp add: trace_inv_def fastResolv_start_def queried_def dispatched_def)

lemma dispatcher_step_trace_inv:
  assumes "dispatcher_step resolvers s = Some s'"
    and "trace_inv s"
  shows "trace_inv s'"
proof (cases "pc s")
  case (AtGo d)
  with assms show ?thesis
    by (auto simp: dispatcher_step_def trace_inv_def queried_def dispatched_def
             split: if_splits intro: subset_mset.order_trans)
next
  case AtErr
  with assms show ?thesis
    by (auto simp: dispatcher_step_def trace_inv_def queried_def dispatched_def
             split: option.splits)
qed (use assms in \<open>auto simp: dispatcher_step_def trace_inv_def queried_def dispatched_def
                     split: if_splits list.splits\<close>)

lemma resolv2_step_trace_inv:
  assumes "resolv2_step verbose s i x = Some s'"
    and "trace_inv s"
  shows "trace_inv s'"
  using assms(1)
proof (cases rule: resolv2_step_cases)
  case (panic ev a)
  from panic(5) resolv_queries [of verbose "\<lambda>client query server. x" "g_domain (procs s ! i)" "g_server (procs s ! i)"]
  have q: "queries ev = [(g_domain (procs s ! i), g_server (procs s ! i))]" by simp
  from assms(2) panic have "mset (queries (trace s)) = mset (queried s)"
    by (simp add: trace_inv_def)
  with queried_subset [of i s] panic q show ?thesis
    by (simp add: trace_inv_def dispatched_def)
next
  case (return ev nslist)
  from return(5) resolv_queries [of verbose "\<lambda>client query server. x" "g_domain (procs s ! i)" "g_server (procs s ! i)"]
  have q: "queries ev = [(g_domain (procs s ! i), g_server (procs s ! i))]" by simp
  from assms(2) return have e: "mset (queries (trace s)) = mset (queried s)"
    by (simp add: trace_inv_def)
  from queried_update [of i s "(procs s ! i)\<lparr>g_phase := Returned, g_result := nslist\<rparr>"] return
  have u: "mset (queried s') = mset (queried s) + {#(g_domain (procs s ! i), g_server (procs s ! i))#}"
    by (simp add: queried_def)
  have d: "dispatched s' = dispatched s"
    using return by (simp add: dispatched_def map_update_same)
  from queried_subset [of i s] return e q u d show ?thesis
    by (simp add: trace_inv_def)
next
  case receive
  from queried_update [of i s "(procs s ! i)\<lparr>g_phase := Released\<rparr>"] receive
  have u: "mset (queried s') = mset (queried s)"
    by (simp add: queried_def)
  have d: "dispatched s' = dispatched s"
    using receive by (simp add: dispatched_def map_update_same)
  from assms(2) receive u d show ?thesis
    by (auto simp: trace_inv_def)
next
  case receive_closed
  from queried_update [of i s "(procs s ! i)\<lparr>g_phase := Released\<rparr>"] receive_closed
  have u: "mset (queried s') = mset (queried s)"
    by (simp add: queried_def)
  have d: "dispatched s' = dispatched s"
    using receive_closed by (simp add: dispatched_def map_update_same)
  from assms(2) receive_closed u d show ?thesis
    by (auto simp: trace_inv_def)
next
  case wg_panic
  with assms(2) show ?thesis by (auto simp: trace_inv_def dispatched_def)
next
  case wg_done
  from queried_update [of i s "(procs s ! i)\<lparr>g_phase := Finished\<rparr>"] wg_done
  have u: "mset (queried s') = mset (queried s)"
    by (simp add: queried_def)
  have d: "dispatched s' = dispatched s"
    using wg_done by (simp add: dispatched_def map_update_same)
  from assms(2) wg_done u d show ?thesis
    by (auto simp: trace_inv_def)
qed

lemma rendezvous_step_trace_inv:
  assumes "rendezvous_step s i = Some s'"
    and "trace_inv s"
  shows "trace_inv s'"
  using assms(1)
proof (cases rule: rendezvous_step_cases)
  case (rendezvous d)
  from queried_update [of i s "(procs s ! i)\<lparr>g_phase := Released\<rparr>"] rendezvous
  have u: "mset (queried s') = mset (queried s)"
    by (simp add: queried_def)
  have d: "dispatched s' = dispatched s"
    using rendezvous by (simp add: dispatched_def map_update_same)
  from assms(2) rendezvous u d show ?thesis
    by (auto simp: trace_inv_def)
qed

lemma step_trace_inv:
  assumes "step verbose resolvers s l = Some s'"
    and "trace_inv s"
  shows "trace_inv s'"
  using assms
  by (cases l)
     (auto intro: dispatcher_step_trace_inv resolv2_step_trace_inv rendezvous_step_trace_inv)

lemma fastResolv_trace_inv:
  assumes "fastResolv verbose chan_limit concurrent resolvers domains sched = Inr (Some s)"
  shows "trace_inv s"
  using fastResolv_run(1) [OF assms] trace_inv_init [of concurrent domains]
  by (rule run_invariant [where P = trace_inv, rotated]) (rule step_trace_inv)

lemma sent_inv_init: "sent_inv (fastResolv_start concurrent domains)"
  by (simp add: sent_inv_def fastResolv_start_def queried_def)

lemma dispatcher_step_sent_inv:
  assumes "dispatcher_step resolvers s = Some s'"
    and "sent_inv s"
  shows "sent_inv s'"
proof (cases "pc s")
  case AtErr
  with assms show ?thesis
    by (auto simp: dispatcher_step_def sent_inv_def queried_def
             split: option.splits)
qed (use assms in \<open>auto simp: dispatcher_step_def sent_inv_def queried_def
                     split: if_splits list.splits\<close>)

lemma resolv2_step_sent_inv:
  assumes "resolv2_step verbose s i x = Some s'"
    and "sent_inv s"
  shows "sent_inv s'"
  using assms(1)
proof (cases rule: resolv2_step_cases)
  case (panic ev a)
  have "mset (queries (trace s)) \<subseteq># mset (queries (trace s)) + mset (queries ev)"
    by simp
  with assms(2) panic show ?thesis
    by (auto simp: sent_inv_def queried_def intro: subset_mset.order_trans)
next
  case (return ev nslist)
  from return(5) resolv_queries [of verbose "\<lambda>client query server. x" "g_domain (procs s ! i)" "g_server (procs s ! i)"]
  have q: "queries ev = [(g_domain (procs s ! i), g_server (procs s ! i))]" by simp
  from queried_update [of i s "(procs s ! i)\<lparr>g_phase := Returned, g_result := nslist\<rparr>"] return
  have u: "mset (queried s') = mset (queried s) + {#(g_domain (procs s ! i), g_server (procs s ! i))#}"
    by (simp add: queried_def)
  from assms(2) return q u show ?thesis
    by (simp add: sent_inv_def)
next
  case receive
  from queried_update [of i s "(procs s ! i)\<lparr>g_phase := Released\<rparr>"] receive
  have u: "mset (queried s') = mset (queried s)"
    by (simp add: queried_def)
  from assms(2) receive u show ?thesis
    by (auto simp: sent_inv_def)
next
  case receive_closed
  from queried_update [of i s "(procs s ! i)\<lparr>g_phase := Released\<rparr>"] receive_closed
  have u: "mset (queried s') = mset (queried s)"
    by (simp add: queried_def)
  from assms(2) receive_closed u show ?thesis
    by (auto simp: sent_inv_def)
next
  case wg_panic
  with assms(2) show ?thesis by (auto simp: sent_inv_def queried_def)
next
  case wg_done
  from queried_update [of i s "(procs s ! i)\<lparr>g_phase := Finished\<rparr>"] wg_done
  have u: "mset (queried s') = mset (queried s)"
    by (simp add: queried_def)
  from assms(2) wg_done u show ?thesis
    by (auto simp: sent_inv_def)
qed

lemma rendezvous_step_sent_inv:
  assumes "rendezvous_step s i = Some s'"
    and "sent_inv s"
  shows "sent_inv s'"
  using assms(1)
proof (cases rule: rendezvous_step_cases)
  case (rendezvous d)
  from queried_update [of i s "(procs s ! i)\<lparr>g_phase := Released\<rparr>"] rendezvous
  have u: "mset (queried s') = mset (queried s)"
    by (simp add: queried_def)
  from assms(2) rendezvous u show ?thesis
    by (auto simp: sent_inv_def)
qed

lemma step_sent_inv:
  assumes "step verbose resolvers s l = Some s'"
    and "sent_inv s"
  shows "sent_inv s'"
  using assms
  by (cases l)
     (auto intro: dispatcher_step_sent_inv resolv2_step_sent_inv rendezvous_step_sent_inv)

lemma fastResolv_sent_inv:
  assumes "fastResolv verbose chan_limit concurrent resolvers domains sched = Inr (Some s)"
  shows "sent_inv s"
  using fastResolv_run(1) [OF assms] sent_inv_init [of concurrent domains]
  by (rule run_invariant [where P = sent_inv, rotated]) (rule step_sent_inv)

lemma drained_inv_init: "drained_inv (fastResolv_start concurrent domains)"
  by (simp add: drained_inv_def fastResolv_start_def)

lemma step_drained_inv:
  assumes "step verbose resolvers s l = Some s'"
    and "drained_inv s"
  shows "drained_inv s'"
proof (cases l)
  case Dispatcher
  with assms show ?thesis
    by (cases "pc s")
       (auto simp: dispatcher_step_def drained_inv_def split: if_splits list.splits)
next
  case (Goroutine i x)
  with assms have "resolv2_step verbose s i x = Some s'" by simp
  then show ?thesis
    using assms(2) by (cases rule: resolv2_step_cases) (auto simp: drained_inv_def)
next
  case (Rendezvous i)
  with assms have "rendezvous_step s i = Some s'" by simp
  then show ?thesis
    using assms(2) by (cases rule: rendezvous_step_cases) (auto simp: drained_inv_def)
qed

lemma fastResolv_drained_inv:
  assumes "fastResolv verbose chan_limit concurrent resolvers domains sched = Inr (Some s)"
  shows "drained_inv s"
  using fastResolv_run(1) [OF assms] drained_inv_init [of concurrent domains]
  by (rule run_invariant [where P = drained_inv, rotated]) (rule step_drained_inv)

lemma unfinished_zero: "unfinished gs = 0 \<Longrightarrow> g \<in> set gs \<Longrightarrow> g_phase g = Finished"
  by (auto simp: unfinished_def filter_empty_conv)

text \<open>What holds when \<open>fastResolv\<close> has returned.\<close>

lemma fastResolv_Exited:
  assumes "resolvers \<noteq> []"
    and "fastResolv verbose chan_limit concurrent resolvers domains sched = Inr (Some s)"
    and "pc s = Exited"
  shows "dispatched s = round_robin resolvers (fst domains)"
    and "map g_domain (procs s) = fst domains"
    and "\<forall>g \<in> set (procs s). g_phase g = Finished"
    and "mset (queries (trace s)) = mset (round_robin resolvers (fst domains))"
    and "threads s = 0" and "wg s = 0"
proof -
  from assms(1,2) have rr: "rr_inv resolvers (fst domains) s" by (rule fastResolv_rr_inv)
  from assms(2) have dr: "drained_inv s" by (rule fastResolv_drained_inv)
  from assms(2) have sy: "sync_inv s" by (rule fastResolv_sync_inv)
  from assms(2) have tr: "trace_inv s" by (rule fastResolv_trace_inv)
  from dr assms(3) have "scanner s = []" by (simp add: drained_inv_def)
  with rr assms(3) show dom: "map g_domain (procs s) = fst domains"
    by (simp add: rr_inv_def)
  then have "length (procs s) = length (fst domains)"
    by (metis length_map)
  with rr show d: "dispatched s = round_robin resolvers (fst domains)"
    by (simp add: rr_inv_def)
  from sy assms(3) have u: "unfinished (procs s) = 0"
    by (simp add: sync_inv_def)
  then show fin: "\<forall>g \<in> set (procs s). g_phase g = Finished"
    by (auto dest: unfinished_zero)
  then have "filter (\<lambda>g. g_phase g \<noteq> Querying) (procs s) = procs s"
    by (auto simp: filter_id_conv)
  then have "queried s = dispatched s"
    by (simp add: queried_def dispatched_def)
  with tr assms(3) d show "mset (queries (trace s)) = mset (round_robin resolvers (fst domains))"
    by (simp add: trace_inv_def)
  from fin have "holders (procs s) = 0"
    by (auto simp: holders_def filter_empty_conv)
  with sy assms(3) u show "threads s = 0" and "wg s = 0"
    by (simp_all add: sync_inv_def)
qed


lemma run_append:
  "run verbose resolvers s (ls @ ls') =
     (case run verbose resolvers s ls of
        None \<Rightarrow> None
      | Some s' \<Rightarrow> run verbose resolvers s' ls')"
  by (induction ls arbitrary: s) (auto split: option.splits)

lemma fastResolv_append:
  assumes "fastResolv verbose chan_limit concurrent resolvers domains ls = Inr (Some s)"
  shows "fastResolv verbose chan_limit concurrent resolvers domains (ls @ ls') =
           Inr (run verbose resolvers s ls')"
  using assms
  by (auto simp: fastResolv_def fastResolv_init_def make_chan_def run_append
           split: if_splits)

lemma fastResolv_snoc:
  assumes "fastResolv verbose chan_limit concurrent resolvers domains (ls @ [l]) = Inr (Some s)"
  obtains s1 where "fastResolv verbose chan_limit concurrent resolvers domains ls = Inr (Some s1)"
    and "step verbose resolvers s1 l = Some s"
  using assms
  by (auto simp: fastResolv_def fastResolv_init_def make_chan_def run_append
           split: if_splits option.splits)

text \<open>Reading a state off the result of \<open>fastResolv\<close>.\<close>

lemma map_sum_option_eq:
  "map_sum id (map_option f) r = Inr (Some v) \<Longrightarrow> \<exists>s. r = Inr (Some s) \<and> f s = v"
  by (cases r) auto

text \<open>One line, from the scan to the end of its goroutine.\<close>

lemma serial_round:
  assumes "quiet resolvers s"
    and "scanner s = d # ds"
    and "typed_or_failed x"
  shows "\<exists>s'. run verbose resolvers s
                [Dispatcher, Dispatcher, Dispatcher, Dispatcher,
                 Goroutine (length (procs s)) x, Goroutine (length (procs s)) x,
                 Goroutine (length (procs s)) x] = Some s' \<and>
              quiet resolvers s' \<and> scanner s' = ds \<and>
              length (procs s') = Suc (length (procs s))"
proof -
  let ?n = "length (procs s)"
  let ?g = "\<lparr>g_domain = d, g_server = resolvers ! server_ix s, g_phase = Querying,
             g_result = None, g_panicking = False\<rparr>"
  from assms(1) have q: "pc s = AtScan" "threads s = 0" "wg s = 0" "0 < threads_cap s"
    "server_ix s < length resolvers"
    by (simp_all add: quiet_def)
  define s1 where "s1 = s\<lparr>scanner := ds, pc := AtAdd d\<rparr>"
  define s2 where "s2 = s1\<lparr>wg := wg s1 + 1, pc := AtSend d, hist := hist s1 @ [WgAdd]\<rparr>"
  define s3 where "s3 = s2\<lparr>threads := threads s2 + 1, pc := AtGo d, hist := hist s2 @ [Send]\<rparr>"
  define s4 where "s4 = s3\<lparr>procs := procs s3 @ [?g],
                        server_ix := (server_ix s3 + 1) mod length resolvers,
                        pc := AtScan,
                        hist := hist s3 @ [GoStmt (length (procs s3))]\<rparr>"
  have 1: "dispatcher_step resolvers s = Some s1"
    using q assms(2) by (simp add: dispatcher_step_def s1_def)
  have 2: "dispatcher_step resolvers s1 = Some s2"
    by (simp add: dispatcher_step_def s1_def s2_def)
  have 3: "dispatcher_step resolvers s2 = Some s3"
    using q by (simp add: dispatcher_step_def s1_def s2_def s3_def)
  have 4: "dispatcher_step resolvers s3 = Some s4"
    using q by (simp add: dispatcher_step_def s1_def s2_def s3_def s4_def)
  have p4: "procs s4 = procs s @ [?g]" "pc s4 = AtScan" "threads s4 = 1" "wg s4 = 1"
    "scanner s4 = ds" "threads_cap s4 = threads_cap s"
    "server_ix s4 = (server_ix s + 1) mod length resolvers"
    using q by (simp_all add: s1_def s2_def s3_def s4_def)
  obtain ev res where r: "resolv verbose (\<lambda>client query server. x) d (resolvers ! server_ix s) = (ev, res)"
    by (cases "resolv verbose (\<lambda>client query server. x) d (resolvers ! server_ix s)")
  from resolv_returns_or_failed [of "\<lambda>client query server. x" d "resolvers ! server_ix s" verbose] assms(3) r
  obtain nslist where res: "res = Inr nslist" by auto
  define s5 where "s5 = s4\<lparr>trace := trace s4 @ ev,
                        procs := (procs s4)[?n := ?g\<lparr>g_phase := Returned, g_result := nslist\<rparr>],
                        hist := hist s4 @ [Return ?n nslist]\<rparr>"
  have 5: "resolv2_step verbose s4 ?n x = Some s5"
    using p4 r res by (simp add: resolv2_step_def s5_def)
  define s6 where "s6 = s5\<lparr>threads := threads s5 - 1,
                        procs := (procs s5)[?n := (procs s5 ! ?n)\<lparr>g_phase := Released\<rparr>],
                        hist := hist s5 @ [Receive ?n]\<rparr>"
  have p5: "procs s5 = procs s @ [?g\<lparr>g_phase := Returned, g_result := nslist\<rparr>]"
    "pc s5 = AtScan" "threads s5 = 1" "wg s5 = 1" "scanner s5 = ds"
    "threads_cap s5 = threads_cap s" "server_ix s5 = (server_ix s + 1) mod length resolvers"
    using p4 by (simp_all add: s5_def)
  have 6: "resolv2_step verbose s5 ?n x = Some s6"
    using p5 by (simp add: resolv2_step_def s6_def)
  have p6: "procs s6 = procs s @ [?g\<lparr>g_phase := Released, g_result := nslist\<rparr>]"
    "pc s6 = AtScan" "threads s6 = 0" "wg s6 = 1" "scanner s6 = ds"
    "threads_cap s6 = threads_cap s" "server_ix s6 = (server_ix s + 1) mod length resolvers"
    using p5 by (simp_all add: s6_def)
  define s7 where "s7 = s6\<lparr>wg := wg s6 - 1,
                        procs := (procs s6)[?n := (procs s6 ! ?n)\<lparr>g_phase := Finished\<rparr>],
                        hist := hist s6 @ [WgDone ?n]\<rparr>"
  have 7: "resolv2_step verbose s6 ?n x = Some s7"
    using p6 by (simp add: resolv2_step_def s7_def)
  have p7: "length (procs s7) = Suc ?n"
    "pc s7 = AtScan" "threads s7 = 0" "wg s7 = 0" "scanner s7 = ds"
    "threads_cap s7 = threads_cap s" "server_ix s7 = (server_ix s + 1) mod length resolvers"
    using p6 by (simp_all add: s7_def)
  from q(5) have "0 < length resolvers" by linarith
  then have "(server_ix s + 1) mod length resolvers < length resolvers"
    by simp
  with p7 q have "quiet resolvers s7" by (simp add: quiet_def)
  with 1 2 3 4 5 6 7 p7 show ?thesis by simp
qed

lemma serial_tail:
  assumes "quiet resolvers s" and "scanner s = []"
  shows "\<exists>s'. run verbose resolvers s [Dispatcher, Dispatcher, Dispatcher, Dispatcher] = Some s' \<and>
              pc s' = Exited"
  using assms by (simp add: quiet_def dispatcher_step_def)

lemma serial_run:
  assumes "quiet resolvers s"
    and "length xs = length (scanner s)"
    and "list_all typed_or_failed xs"
  shows "\<exists>s'. run verbose resolvers s (serial_schedule (length (procs s)) xs) = Some s' \<and>
              pc s' = Exited"
  using assms
proof (induction xs arbitrary: s)
  case Nil
  then show ?case by (simp add: serial_tail del: run.simps)
next
  case (Cons x xs)
  then obtain d ds where sc: "scanner s = d # ds"
    by (cases "scanner s") auto
  from Cons.prems have x: "typed_or_failed x" by simp
  from serial_round [OF Cons.prems(1) sc x, of verbose]
  obtain s1 where s1: "run verbose resolvers s
                [Dispatcher, Dispatcher, Dispatcher, Dispatcher,
                 Goroutine (length (procs s)) x, Goroutine (length (procs s)) x,
                 Goroutine (length (procs s)) x] = Some s1"
    "quiet resolvers s1" "scanner s1 = ds" "length (procs s1) = Suc (length (procs s))"
    by blast
  from Cons.prems sc s1 have "length xs = length (scanner s1)" "list_all typed_or_failed xs"
    by simp_all
  from Cons.IH [OF s1(2) this] s1(4)
  obtain s' where s': "run verbose resolvers s1 (serial_schedule (Suc (length (procs s))) xs) = Some s'"
    "pc s' = Exited"
    by auto
  have "run verbose resolvers s (serial_schedule (length (procs s)) (x # xs)) =
        run verbose resolvers s1 (serial_schedule (Suc (length (procs s))) xs)"
    by (simp only: serial_schedule.simps run_append s1(1) option.simps)
  with s' show ?case by simp
qed

text \<open>With room for at least one value, \<open>fastResolv\<close> can run to its end on every input.\<close>

lemma fastResolv_serial:
  assumes "resolvers \<noteq> []"
    and "0 < concurrent" and "concurrent \<le> chan_limit"
    and "length xs = length (fst domains)"
    and "list_all typed_or_failed xs"
  shows "\<exists>s. fastResolv verbose chan_limit concurrent resolvers domains (serial_schedule 0 xs) =
               Inr (Some s) \<and>
             pc s = Exited"
proof -
  from assms(1,2) have "quiet resolvers (fastResolv_start concurrent domains)"
    by (simp add: quiet_def fastResolv_start_def)
  from serial_run [OF this, of xs verbose] assms(3-5) show ?thesis
    by (simp add: fastResolv_def fastResolv_init_def make_chan_def fastResolv_start_def)
qed


text \<open>Without buffer nothing is ever started.\<close>

lemma unbuffered_inv_init: "unbuffered_inv (fst domains) (fastResolv_start 0 domains)"
  by (simp add: unbuffered_inv_def fastResolv_start_def)

lemma step_unbuffered_inv:
  assumes "step verbose resolvers s l = Some s'"
    and "unbuffered_inv domains s"
  shows "unbuffered_inv domains s'"
proof (cases l)
  case Dispatcher
  with assms show ?thesis
    by (cases "pc s")
       (auto simp: dispatcher_step_def unbuffered_inv_def split: if_splits list.splits option.splits)
next
  case (Goroutine i x)
  with assms show ?thesis
    by (simp add: resolv2_step_def unbuffered_inv_def)
next
  case (Rendezvous i)
  with assms show ?thesis
    by (cases "pc s") (simp_all add: rendezvous_step_def unbuffered_inv_def)
qed

lemma fastResolv_unbuffered_inv:
  assumes "fastResolv verbose chan_limit 0 resolvers domains sched = Inr (Some s)"
  shows "unbuffered_inv (fst domains) s"
  using fastResolv_run(1) [OF assms] unbuffered_inv_init [of domains]
  by (rule run_invariant [where P = "unbuffered_inv (fst domains)", rotated])
     (rule step_unbuffered_inv)

lemma unbuffered_blocked:
  assumes "unbuffered_inv domains s" and "pc s = AtSend d"
  shows "step verbose resolvers s l = None"
  using assms
  by (cases l)
     (simp_all add: unbuffered_inv_def dispatcher_step_def resolv2_step_def rendezvous_step_def)

lemma holders_pos:
  "i < length gs \<Longrightarrow> holds_slot (g_phase (gs ! i)) \<Longrightarrow> 0 < holders gs"
  by (auto simp: holders_def filter_empty_conv intro!: bexI [of _ "gs ! i"])

lemma holders_obtain:
  assumes "0 < holders gs"
  obtains i where "i < length gs" "holds_slot (g_phase (gs ! i))"
proof -
  from assms obtain g where "g \<in> set gs" "holds_slot (g_phase g)"
    by (auto simp: holders_def filter_empty_conv)
  then show ?thesis
    by (auto simp: in_set_conv_nth intro: that)
qed

lemma unfinished_obtain:
  assumes "0 < unfinished gs"
  obtains i where "i < length gs" "g_phase (gs ! i) \<noteq> Finished"
proof -
  from assms obtain g where "g \<in> set gs" "g_phase g \<noteq> Finished"
    by (auto simp: unfinished_def filter_empty_conv)
  then show ?thesis
    by (auto simp: in_set_conv_nth intro: that)
qed

lemma resolv2_enabled:
  assumes "i < length (procs s)" "pc s \<noteq> Panicked" "pc s \<noteq> Exited"
    and "g_phase (procs s ! i) \<noteq> Finished"
    and "g_phase (procs s ! i) = Returned \<longrightarrow> 0 < threads s"
  shows "resolv2_step verbose s i x \<noteq> None"
  using assms
  by (cases "g_phase (procs s ! i)")
     (auto simp: resolv2_step_def Let_def split: prod.splits sum.splits)

text \<open>An answer that is a failure, or well typed, makes nobody panic.\<close>

lemma step_no_panic:
  assumes "resolvers \<noteq> []"
    and "rr_inv resolvers domains s" and "sync_inv s"
    and "pc s \<noteq> Panicked"
    and "calm l"
    and "step verbose resolvers s l = Some s'"
  shows "pc s' \<noteq> Panicked"
proof (cases l)
  case Dispatcher
  from assms(1,2) have "server_ix s < length resolvers"
    by (simp add: rr_inv_def)
  with Dispatcher assms(4,6) show ?thesis
    by (cases "pc s") (auto simp: dispatcher_step_def split: if_splits list.splits)
next
  case (Goroutine i x)
  with assms(6) have "resolv2_step verbose s i x = Some s'" by simp
  then show ?thesis
  proof (cases rule: resolv2_step_cases)
    case (panic ev a)
    from Goroutine assms(5) have "typed_or_failed x" by simp
    then have "\<exists>nslist. snd (resolv verbose (\<lambda>client query server. x) (g_domain (procs s ! i))
                 (g_server (procs s ! i))) = Inr nslist"
      by (intro resolv_returns_or_failed) simp
    with panic(5) show ?thesis by simp
  next
    case wg_panic
    from wg_panic(1,4) have "0 < unfinished (procs s)"
      by (intro unfinished_pos [of i]) simp_all
    with assms(3,4) wg_panic(5) show ?thesis
      by (simp add: sync_inv_def)
  qed (use assms(4) in simp_all)
next
  case (Rendezvous i)
  with assms(6) have "rendezvous_step s i = Some s'" by simp
  then show ?thesis
    by (cases rule: rendezvous_step_cases) simp
qed

lemma fastResolv_no_panic:
  assumes "resolvers \<noteq> []"
    and "fastResolv verbose chan_limit concurrent resolvers domains sched = Inr (Some s)"
    and "list_all calm sched"
  shows "pc s \<noteq> Panicked"
  using assms(2,3)
proof (induction sched arbitrary: s rule: rev_induct)
  case Nil
  then show ?case
    by (auto simp: fastResolv_def fastResolv_init_def make_chan_def fastResolv_start_def
             split: if_splits)
next
  case (snoc l ls)
  from snoc.prems(1) obtain s1
    where s1: "fastResolv verbose chan_limit concurrent resolvers domains ls = Inr (Some s1)"
      and st: "step verbose resolvers s1 l = Some s"
    by (rule fastResolv_snoc)
  from snoc.prems(2) have c: "list_all calm ls" "calm l" by simp_all
  from s1 c(1) have "pc s1 \<noteq> Panicked" by (rule snoc.IH)
  moreover from assms(1) s1 have "rr_inv resolvers (fst domains) s1" by (rule fastResolv_rr_inv)
  moreover from s1 have "sync_inv s1" by (rule fastResolv_sync_inv)
  ultimately show ?case
    using assms(1) c(2) st by (intro step_no_panic [of resolvers "fst domains" s1 l verbose s])
qed

text \<open>Every step leaves fewer steps to take.\<close>

lemma phase_left_update:
  assumes "i < length gs"
  shows "sum_list (map (\<lambda>g. phase_left (g_phase g)) (gs[i := g])) + phase_left (g_phase (gs ! i)) =
         sum_list (map (\<lambda>g. phase_left (g_phase g)) gs) + phase_left (g_phase g)"
proof -
  define L R x where "L = take i gs" and "R = drop (Suc i) gs" and "x = gs ! i"
  from assms have xs: "gs = L @ x # R"
    unfolding L_def R_def x_def by (rule id_take_nth_drop)
  from assms have upd: "gs[i := g] = L @ g # R"
    unfolding L_def R_def by (rule upd_conv_take_nth_drop)
  have e: "sum_list (map (\<lambda>g. phase_left (g_phase g)) (L @ g # R)) + phase_left (g_phase x) =
        sum_list (map (\<lambda>g. phase_left (g_phase g)) (L @ x # R)) + phase_left (g_phase g)"
    by simp
  show ?thesis
    unfolding upd x_def [symmetric] by (subst xs) (rule e)
qed

lemma dpc_weight_pos: "p \<noteq> Exited \<Longrightarrow> p \<noteq> Panicked \<Longrightarrow> 0 < dpc_weight p"
  by (cases p) simp_all

lemma step_steps_left:
  assumes "step verbose resolvers s l = Some s'"
  shows "steps_left s' < steps_left s"
proof (cases l)
  case Dispatcher
  with assms show ?thesis
    by (cases "pc s")
       (auto simp: dispatcher_step_def steps_left_def split: if_splits list.splits)
next
  case (Goroutine i x)
  with assms have "resolv2_step verbose s i x = Some s'" by simp
  then show ?thesis
  proof (cases rule: resolv2_step_cases)
    case (panic ev a)
    with dpc_weight_pos [of "pc s"] show ?thesis by (simp add: steps_left_def)
  next
    case (return ev nslist)
    with phase_left_update [of i "procs s" "(procs s ! i)\<lparr>g_phase := Returned, g_result := nslist\<rparr>"]
    show ?thesis by (simp add: steps_left_def)
  next
    case receive
    with phase_left_update [of i "procs s" "(procs s ! i)\<lparr>g_phase := Released\<rparr>"]
    show ?thesis by (simp add: steps_left_def)
  next
    case receive_closed
    with phase_left_update [of i "procs s" "(procs s ! i)\<lparr>g_phase := Released\<rparr>"]
    show ?thesis by (simp add: steps_left_def)
  next
    case wg_panic
    with dpc_weight_pos [of "pc s"] show ?thesis by (simp add: steps_left_def)
  next
    case wg_done
    with phase_left_update [of i "procs s" "(procs s ! i)\<lparr>g_phase := Finished\<rparr>"]
    show ?thesis by (simp add: steps_left_def)
  qed
next
  case (Rendezvous i)
  with assms have "rendezvous_step s i = Some s'" by simp
  then show ?thesis
  proof (cases rule: rendezvous_step_cases)
    case (rendezvous d)
    with phase_left_update [of i "procs s" "(procs s ! i)\<lparr>g_phase := Released\<rparr>"]
    show ?thesis by (simp add: steps_left_def)
  qed
qed

lemma run_steps_left:
  "run verbose resolvers s ls = Some s' \<Longrightarrow> length ls + steps_left s' \<le> steps_left s"
proof (induction ls arbitrary: s)
  case Nil
  then show ?case by simp
next
  case (Cons l ls)
  from Cons.prems obtain s1 where s1: "step verbose resolvers s l = Some s1"
    and r: "run verbose resolvers s1 ls = Some s'"
    by (auto split: option.splits)
  from s1 have "steps_left s1 < steps_left s" by (rule step_steps_left)
  with Cons.IH [OF r] show ?case by simp
qed

text \<open>No run is longer than seven steps for each line and four more.\<close>

lemma fastResolv_bounded:
  assumes "fastResolv verbose chan_limit concurrent resolvers domains sched = Inr (Some s)"
  shows "length sched + steps_left s \<le> 7 * length (fst domains) + 4"
  using run_steps_left [OF fastResolv_run(1) [OF assms]]
  by (simp add: steps_left_def fastResolv_start_def)

text \<open>
  With room for at least one value, whoever can move can move with a failing answer,
  and so every run in which nobody has panicked goes on to the return of \<open>fastResolv\<close>,
  even if every query still to come fails.
\<close>

lemma fastResolv_progress:
  assumes "fastResolv verbose chan_limit concurrent resolvers domains sched = Inr (Some s)"
    and "0 < concurrent"
    and "pc s \<noteq> Exited" "pc s \<noteq> Panicked"
  shows "\<exists>l s'. failing l \<and> step verbose resolvers s l = Some s'"
proof -
  from assms(1) have sy: "sync_inv s" by (rule fastResolv_sync_inv)
  from assms(1) have bd: "bound_inv concurrent s" by (rule fastResolv_bound_inv)
  from sy assms(4) have th: "threads s = holders (procs s) + at_go (pc s)"
    and w: "wg s = unfinished (procs s) + added (pc s)"
    by (simp_all add: sync_inv_def)
  have disp: "dispatcher_step resolvers s \<noteq> None \<Longrightarrow> ?thesis"
    by (intro exI [of _ Dispatcher]) auto
  have gor: "resolv2_step verbose s i (None, None) \<noteq> None \<Longrightarrow> ?thesis" for i
    by (intro exI [of _ "Goroutine i (None, None)"]) (auto simp: failed_def)
  show ?thesis
  proof (cases "pc s")
    case (AtSend d)
    show ?thesis
    proof (cases "threads s < threads_cap s")
      case True
      with AtSend show ?thesis by (intro disp) (simp add: dispatcher_step_def)
    next
      case False
      with bd assms(2) have "0 < threads s" by (simp add: bound_inv_def)
      with th AtSend have h: "0 < holders (procs s)" by simp
      then obtain i where i: "i < length (procs s)" "holds_slot (g_phase (procs s ! i))"
        by (rule holders_obtain)
      with assms(3,4) \<open>0 < threads s\<close> have "resolv2_step verbose s i (None, None) \<noteq> None"
        by (intro resolv2_enabled) auto
      then show ?thesis by (rule gor)
    qed
  next
    case AtWait
    show ?thesis
    proof (cases "wg s = 0")
      case True
      with AtWait show ?thesis by (intro disp) (simp add: dispatcher_step_def)
    next
      case False
      with w AtWait have "0 < unfinished (procs s)" by simp
      then obtain i where i: "i < length (procs s)" "g_phase (procs s ! i) \<noteq> Finished"
        by (rule unfinished_obtain)
      have "g_phase (procs s ! i) = Returned \<longrightarrow> 0 < threads s"
        using th i(1) holders_pos [of i "procs s"] by auto
      with i assms(3,4) have "resolv2_step verbose s i (None, None) \<noteq> None"
        by (intro resolv2_enabled) auto
      then show ?thesis by (rule gor)
    qed
  next
    case AtScan
    then show ?thesis by (intro disp) (simp add: dispatcher_step_def split: list.splits)
  next
    case (AtAdd d)
    then show ?thesis by (intro disp) (simp add: dispatcher_step_def)
  next
    case (AtGo d)
    then show ?thesis by (intro disp) (simp add: dispatcher_step_def)
  next
    case AtErr
    then show ?thesis by (intro disp) (simp add: dispatcher_step_def)
  next
    case AtClose
    then show ?thesis by (intro disp) (simp add: dispatcher_step_def)
  next
    case Exited
    with assms(3) show ?thesis by simp
  next
    case Panicked
    with assms(4) show ?thesis by simp
  qed
qed

lemma failing_calm: "failing l \<Longrightarrow> calm l"
  by (cases l) (simp_all add: typed_or_failed_def)

lemma fastResolv_completes:
  assumes "resolvers \<noteq> []" and "0 < concurrent"
    and "fastResolv verbose chan_limit concurrent resolvers domains sched = Inr (Some s)"
    and "pc s \<noteq> Panicked"
  shows "\<exists>more s'. list_all failing more \<and>
           fastResolv verbose chan_limit concurrent resolvers domains (sched @ more) = Inr (Some s') \<and>
           pc s' = Exited"
  using assms(3,4)
proof (induction "steps_left s" arbitrary: s sched rule: less_induct)
  case less
  show ?case
  proof (cases "pc s = Exited")
    case True
    with less.prems(1) show ?thesis
      by (intro exI [of _ "[]"] exI [of _ s]) simp
  next
    case False
    with less.prems assms(2) obtain l s1 where l: "failing l"
      and st: "step verbose resolvers s l = Some s1"
      using fastResolv_progress [of verbose chan_limit concurrent resolvers domains sched s]
      by blast
    from less.prems(1) st
    have r1: "fastResolv verbose chan_limit concurrent resolvers domains (sched @ [l]) = Inr (Some s1)"
      by (simp add: fastResolv_append)
    from st have d: "steps_left s1 < steps_left s" by (rule step_steps_left)
    from assms(1) less.prems(1) have "rr_inv resolvers (fst domains) s" by (rule fastResolv_rr_inv)
    moreover from less.prems(1) have "sync_inv s" by (rule fastResolv_sync_inv)
    moreover from l have "calm l" by (rule failing_calm)
    ultimately have np: "pc s1 \<noteq> Panicked"
      using assms(1) less.prems(2) st
      by (intro step_no_panic [of resolvers "fst domains" s l verbose s1])
    from less.hyps [OF d r1 np] obtain more s'
      where m: "list_all failing more"
        and r: "fastResolv verbose chan_limit concurrent resolvers domains ((sched @ [l]) @ more) =
                  Inr (Some s')"
        and e: "pc s' = Exited"
      by blast
    from l m have "list_all failing (l # more)" by simp
    moreover from r have "fastResolv verbose chan_limit concurrent resolvers domains
                            (sched @ l # more) = Inr (Some s')" by simp
    ultimately show ?thesis using e by blast
  qed
qed

text \<open>The sequential path, whatever the network answers: a prefix of the round robin.\<close>

lemma slowResolv_loop_prefix:
  assumes "resolvers \<noteq> []"
  shows "\<exists>m. queries (fst (slowResolv_loop verbose resolvers net k ds (n mod length resolvers))) =
              take m (map (\<lambda>(i, d). (d, resolvers ! (i mod length resolvers))) (enumerate n ds))"
proof (induction ds arbitrary: k n)
  case Nil
  then show ?case by simp
next
  case (Cons d ds)
  let ?M = "length resolvers"
  let ?rr = "\<lambda>n ds. map (\<lambda>(i, d). (d, resolvers ! (i mod ?M))) (enumerate n ds)"
  from assms have lt: "n mod ?M < ?M" by simp
  have suc: "(n mod ?M + 1) mod ?M = Suc n mod ?M"
    by (simp add: mod_Suc_eq)
  obtain o1 r1 where r: "resolv verbose (net k) d (resolvers ! (n mod ?M)) = (o1, r1)"
    by (cases "resolv verbose (net k) d (resolvers ! (n mod ?M))")
  from resolv_queries [of verbose "net k" d "resolvers ! (n mod ?M)"] r
  have q1: "queries o1 = [(d, resolvers ! (n mod ?M))]" by simp
  show ?case
  proof (cases r1)
    case (Inl a)
    with r lt q1 have "queries (fst (slowResolv_loop verbose resolvers net k (d # ds) (n mod ?M))) =
        take 1 (?rr n (d # ds))"
      by simp
    then show ?thesis by blast
  next
    case (Inr nslist)
    from Cons.IH [of "Suc k" "Suc n"]
    obtain m where m: "queries (fst (slowResolv_loop verbose resolvers net (Suc k) ds (Suc n mod ?M))) =
        take m (?rr (Suc n) ds)"
      by blast
    obtain o2 r2 where l: "slowResolv_loop verbose resolvers net (Suc k) ds (Suc n mod ?M) = (o2, r2)"
      by (cases "slowResolv_loop verbose resolvers net (Suc k) ds (Suc n mod ?M)")
    with r Inr lt q1 m suc
    have "queries (fst (slowResolv_loop verbose resolvers net k (d # ds) (n mod ?M))) =
        take (Suc m) (?rr n (d # ds))"
      by simp
    then show ?thesis by blast
  qed
qed

lemma slowResolv_queries:
  "queries (fst (slowResolv verbose resolvers net domains)) =
   queries (fst (slowResolv_loop verbose resolvers net 0 (fst domains) 0))"
  by (cases "slowResolv_loop verbose resolvers net 0 (fst domains) 0";
      cases "snd (slowResolv_loop verbose resolvers net 0 (fst domains) 0)")
     (auto simp: slowResolv_def split: option.splits)

section \<open>Facts about both dispatch paths\<close>

lemma resolv_failed:
  assumes "failed (exch resolv_client (resolv_query domain) server)"
  shows "snd (resolv verbose exch domain server) = Inr None"
proof (cases rule: resolv_cases [of exch domain server])
  case (transport r e)
  then show ?thesis by (simp add: resolv_transport_error)
next
  case nil
  then show ?thesis by (simp add: resolv_nil_response)
next
  case (rcode m)
  then show ?thesis by (simp add: resolv_rcode)
next
  case (success m)
  with assms show ?thesis by (simp add: failed_def)
qed

lemma map_fst_round_robin: "map fst (round_robin resolvers domains) = domains"
proof -
  have "map fst (map (\<lambda>(i, d). (d, resolvers ! (i mod length resolvers))) (enumerate n ds)) = ds"
    for n ds
    by (induction ds arbitrary: n) auto
  then show ?thesis by (simp add: round_robin_def)
qed

lemma slowResolv_complete:
  assumes "resolvers \<noteq> []"
    and "\<And>j d r. typed_or_failed (net j resolv_client (resolv_query d) r)"
  shows "snd (slowResolv verbose resolvers net domains) = Inr ()"
    and "queries (fst (slowResolv verbose resolvers net domains)) =
           round_robin resolvers (fst domains)"
proof -
  obtain out res where l: "slowResolv_loop verbose resolvers net 0 (fst domains) 0 = (out, res)"
    by (cases "slowResolv_loop verbose resolvers net 0 (fst domains) 0")
  from assms(1) have "0 mod length resolvers = 0" by simp
  with slowResolv_loop_round_robin
         [where resolvers = resolvers and net = net and verbose = verbose and k = 0
            and ds = "fst domains" and n = 0 and out = out and res = res, OF assms] l
  have "res = Inr ()" "queries out = round_robin resolvers (fst domains)"
    by (simp_all add: round_robin_def)
  with l show "snd (slowResolv verbose resolvers net domains) = Inr ()"
    and "queries (fst (slowResolv verbose resolvers net domains)) =
           round_robin resolvers (fst domains)"
    by (simp_all add: slowResolv_def split: option.splits)
qed

lemma slowResolv_prefix:
  assumes "resolvers \<noteq> []"
  shows "\<exists>m. queries (fst (slowResolv verbose resolvers net domains)) =
              take m (round_robin resolvers (fst domains))"
proof -
  from assms have "0 mod length resolvers = 0" by simp
  with slowResolv_loop_prefix [OF assms, of verbose net 0 "fst domains" 0]
  show ?thesis
    by (simp add: round_robin_def slowResolv_queries)
qed

lemma fastResolv_dispatched_nth:
  assumes "resolvers \<noteq> []"
    and "fastResolv verbose chan_limit concurrent resolvers domains sched = Inr (Some s)"
    and "i < length (procs s)"
  shows "dispatched s ! i = (fst domains ! i, resolvers ! (i mod length resolvers))"
proof -
  from assms(1,2) have "rr_inv resolvers (fst domains) s" by (rule fastResolv_rr_inv)
  then have d: "dispatched s = take (length (procs s)) (round_robin resolvers (fst domains))"
    by (simp add: rr_inv_def)
  have "length (dispatched s) = length (procs s)"
    by (simp add: dispatched_def)
  with d have "length (procs s) \<le> length (fst domains)"
    by (metis length_round_robin length_take min_def nat_le_linear)
  with assms(3) have "i < length (fst domains)" by simp
  with d assms(3) show ?thesis
    by (simp add: nth_round_robin)
qed

text \<open>A goroutine that has left \<open>resolv\<close> has sent its query.\<close>

lemma fastResolv_sent_nth:
  assumes "resolvers \<noteq> []"
    and "fastResolv verbose chan_limit concurrent resolvers domains sched = Inr (Some s)"
    and "i < length (procs s)" and "g_phase (procs s ! i) \<noteq> Querying"
  shows "(fst domains ! i, resolvers ! (i mod length resolvers)) \<in> set (queries (trace s))"
proof -
  from assms(1-3) have d: "dispatched s ! i = (fst domains ! i, resolvers ! (i mod length resolvers))"
    by (rule fastResolv_dispatched_nth)
  from assms(3,4) have "procs s ! i \<in> set (filter (\<lambda>g. g_phase g \<noteq> Querying) (procs s))"
    by simp
  then have "(g_domain (procs s ! i), g_server (procs s ! i)) \<in> set (queried s)"
    unfolding queried_def set_map by (rule imageI)
  with d assms(3) have "(fst domains ! i, resolvers ! (i mod length resolvers)) \<in># mset (queried s)"
    by (simp add: dispatched_def)
  moreover from assms(2) have "mset (queried s) \<subseteq># mset (queries (trace s))"
    using fastResolv_sent_inv by (simp add: sent_inv_def)
  ultimately have "(fst domains ! i, resolvers ! (i mod length resolvers)) \<in># mset (queries (trace s))"
    by (rule mset_subset_eqD [rotated])
  then show ?thesis by simp
qed

text \<open>Every query sent is the one of some goroutine started.\<close>

lemma fastResolv_sent_only:
  assumes "resolvers \<noteq> []"
    and "fastResolv verbose chan_limit concurrent resolvers domains sched = Inr (Some s)"
    and "q \<in> set (queries (trace s))"
  shows "\<exists>i < length (procs s). q = (fst domains ! i, resolvers ! (i mod length resolvers))"
proof -
  from assms(2) have "mset (queries (trace s)) \<subseteq># mset (dispatched s)"
    using fastResolv_trace_inv by (simp add: trace_inv_def)
  with assms(3) have "q \<in> set (dispatched s)"
    by (metis mset_subset_eqD set_mset_mset)
  then obtain i where i: "i < length (dispatched s)" "dispatched s ! i = q"
    by (auto simp: in_set_conv_nth)
  then have l: "i < length (procs s)" by (simp add: dispatched_def)
  with assms(1,2) have "dispatched s ! i = (fst domains ! i, resolvers ! (i mod length resolvers))"
    by (rule fastResolv_dispatched_nth)
  with i l show ?thesis by auto
qed

lemma count_list_filter: "P a \<Longrightarrow> count_list (filter P xs) a = count_list xs a"
  by (induction xs) auto

lemma resolv2_step_failed:
  assumes "i < length (procs s)" "pc s \<noteq> Panicked" "pc s \<noteq> Exited"
    and "g_phase (procs s ! i) = Querying"
    and "failed x"
  shows "\<exists>s'. resolv2_step verbose s i x = Some s' \<and> g_phase (procs s' ! i) = Returned \<and>
              g_result (procs s' ! i) = None \<and> pc s' = pc s \<and> threads s' = threads s \<and>
              scanner s' = scanner s \<and> dispatched s' = dispatched s"
proof -
  let ?r = "resolv verbose (\<lambda>client query server. x) (g_domain (procs s ! i)) (g_server (procs s ! i))"
  from assms(5) have "snd ?r = Inr None"
    by (intro resolv_failed) simp
  then obtain ev where "?r = (ev, Inr None)"
    by (cases ?r) simp
  with assms(1-4) show ?thesis
    by (simp add: resolv2_step_def dispatched_def map_update_same)
qed

section \<open>Facts about the variant with deferred calls\<close>

lemma run_deferred_invariant:
  assumes "\<And>s l s'. step_deferred verbose resolvers s l = Some s' \<Longrightarrow> P s \<Longrightarrow> P s'"
  shows "run_deferred verbose resolvers s ls = Some s' \<Longrightarrow> P s \<Longrightarrow> P s'"
proof (induction ls arbitrary: s)
  case Nil
  then show ?case by simp
next
  case (Cons l ls)
  then show ?case
    by (auto split: option.splits intro: assms)
qed

lemma fastResolv_deferred_run:
  assumes "fastResolv_deferred verbose chan_limit concurrent resolvers domains sched = Inr (Some s)"
  shows "run_deferred verbose resolvers (fastResolv_start concurrent domains) sched = Some s"
    and "concurrent \<le> chan_limit"
  using assms
  by (auto simp: fastResolv_deferred_def fastResolv_init_def make_chan_def split: if_splits)

lemma fastResolv_deferred_make_fails:
  "chan_limit < concurrent \<Longrightarrow>
   fastResolv_deferred verbose chan_limit concurrent resolvers domains sched = Inl Panic"
  by (simp add: fastResolv_deferred_def fastResolv_init_def make_chan_def)

lemma resolv_deferred_failed:
  assumes "failed (exch resolv_client (resolv_query domain) server)"
  shows "snd (resolv_deferred verbose exch domain server) = Inr ()"
proof -
  obtain r err where "exch resolv_client (resolv_query domain) server = (r, err)"
    by (cases "exch resolv_client (resolv_query domain) server")
  with assms show ?thesis
    by (cases err; cases r) (auto simp: resolv_deferred_def failed_def)
qed

lemma resolv_deferred_step_cases
  [consumes 1, case_names leave receive receive_closed wg_panic wg_done wg_crash]:
  assumes "resolv_deferred_step verbose s i x = Some s'"
  obtains
    (leave) ev res where "i < length (procs s)" "pc s \<noteq> Panicked" "pc s \<noteq> Exited"
      "g_phase (procs s ! i) = Querying"
      "resolv_deferred verbose (\<lambda>client query server. x) (g_domain (procs s ! i))
         (g_server (procs s ! i)) = (ev, res)"
      "s' = s\<lparr>trace := trace s @ ev,
               procs := (procs s)[i := (procs s ! i)\<lparr>g_phase := Returned,
                  g_panicking := (case res of Inl a \<Rightarrow> True | Inr u \<Rightarrow> False)\<rparr>],
               hist := hist s @ [Return i (g_result (procs s ! i))]\<rparr>"
  | (receive) "i < length (procs s)" "pc s \<noteq> Panicked" "pc s \<noteq> Exited"
      "g_phase (procs s ! i) = Returned" "0 < threads s"
      "s' = s\<lparr>threads := threads s - 1,
               procs := (procs s)[i := (procs s ! i)\<lparr>g_phase := Released\<rparr>],
               hist := hist s @ [Receive i]\<rparr>"
  | (receive_closed) "i < length (procs s)" "pc s \<noteq> Panicked" "pc s \<noteq> Exited"
      "g_phase (procs s ! i) = Returned" "threads s = 0" "closed s"
      "s' = s\<lparr>procs := (procs s)[i := (procs s ! i)\<lparr>g_phase := Released\<rparr>],
               hist := hist s @ [Receive i]\<rparr>"
  | (wg_panic) "i < length (procs s)" "pc s \<noteq> Panicked" "pc s \<noteq> Exited"
      "g_phase (procs s ! i) = Released" "wg s = 0" "s' = s\<lparr>pc := Panicked\<rparr>"
  | (wg_done) "i < length (procs s)" "pc s \<noteq> Panicked" "pc s \<noteq> Exited"
      "g_phase (procs s ! i) = Released" "0 < wg s" "\<not> g_panicking (procs s ! i)"
      "s' = s\<lparr>wg := wg s - 1,
               procs := (procs s)[i := (procs s ! i)\<lparr>g_phase := Finished\<rparr>],
               hist := hist s @ [WgDone i]\<rparr>"
  | (wg_crash) "i < length (procs s)" "pc s \<noteq> Panicked" "pc s \<noteq> Exited"
      "g_phase (procs s ! i) = Released" "0 < wg s" "g_panicking (procs s ! i)"
      "s' = s\<lparr>wg := wg s - 1,
               procs := (procs s)[i := (procs s ! i)\<lparr>g_phase := Finished\<rparr>],
               hist := hist s @ [WgDone i],
               pc := Panicked\<rparr>"
proof -
  from assms have i: "i < length (procs s)" "pc s \<noteq> Panicked" "pc s \<noteq> Exited"
    by (auto simp: resolv_deferred_step_def split: if_splits)
  show ?thesis
  proof (cases "g_phase (procs s ! i)")
    case Querying
    obtain ev res where
      r: "resolv_deferred verbose (\<lambda>client query server. x) (g_domain (procs s ! i))
            (g_server (procs s ! i)) = (ev, res)"
      by (cases "resolv_deferred verbose (\<lambda>client query server. x) (g_domain (procs s ! i))
            (g_server (procs s ! i))")
    with assms i Querying show ?thesis
      by (intro leave [of ev res]) (simp_all add: resolv_deferred_step_def Let_def)
  next
    case Returned
    show ?thesis
    proof (cases "0 < threads s")
      case True
      with assms i Returned show ?thesis
        by (intro receive) (simp_all add: resolv_deferred_step_def)
    next
      case False
      with assms i Returned show ?thesis
        by (intro receive_closed) (simp_all add: resolv_deferred_step_def split: if_splits)
    qed
  next
    case Released
    show ?thesis
    proof (cases "wg s = 0")
      case True
      with assms i Released show ?thesis
        by (intro wg_panic) (simp_all add: resolv_deferred_step_def)
    next
      case False
      show ?thesis
      proof (cases "g_panicking (procs s ! i)")
        case True
        with assms i Released \<open>wg s \<noteq> 0\<close> show ?thesis
          by (intro wg_crash) (simp_all add: resolv_deferred_step_def)
      next
        case False
        with assms i Released \<open>wg s \<noteq> 0\<close> show ?thesis
          by (intro wg_done) (simp_all add: resolv_deferred_step_def)
      qed
    qed
  next
    case Finished
    with assms i show ?thesis
      by (simp add: resolv_deferred_step_def)
  qed
qed

lemma resolv_deferred_step_bound_inv:
  assumes "resolv_deferred_step verbose s i x = Some s'"
    and "bound_inv concurrent s"
  shows "bound_inv concurrent s'"
  using assms(1)
proof (cases rule: resolv_deferred_step_cases)
  case (leave ev res)
  with assms(2) holders_update [of i "procs s" "(procs s ! i)\<lparr>g_phase := Returned,
      g_panicking := (case res of Inl a \<Rightarrow> True | Inr u \<Rightarrow> False)\<rparr>"]
  show ?thesis by (auto simp: bound_inv_def)
next
  case receive
  with assms(2) holders_update [of i "procs s" "(procs s ! i)\<lparr>g_phase := Released\<rparr>"]
  show ?thesis by (auto simp: bound_inv_def)
next
  case receive_closed
  with assms(2) holders_update [of i "procs s" "(procs s ! i)\<lparr>g_phase := Released\<rparr>"]
  show ?thesis by (auto simp: bound_inv_def)
next
  case wg_panic
  with assms(2) show ?thesis by (auto simp: bound_inv_def)
next
  case wg_done
  with assms(2) holders_update [of i "procs s" "(procs s ! i)\<lparr>g_phase := Finished\<rparr>"]
  show ?thesis by (auto simp: bound_inv_def)
next
  case wg_crash
  with assms(2) holders_update [of i "procs s" "(procs s ! i)\<lparr>g_phase := Finished\<rparr>"]
  show ?thesis by (auto simp: bound_inv_def)
qed

lemma step_deferred_bound_inv:
  assumes "step_deferred verbose resolvers s l = Some s'"
    and "bound_inv concurrent s"
  shows "bound_inv concurrent s'"
  using assms
  by (cases l)
     (auto intro: dispatcher_step_bound_inv resolv_deferred_step_bound_inv
        rendezvous_step_bound_inv)

lemma fastResolv_deferred_bound_inv:
  assumes "fastResolv_deferred verbose chan_limit concurrent resolvers domains sched = Inr (Some s)"
  shows "bound_inv concurrent s"
  using fastResolv_deferred_run(1) [OF assms] bound_inv_init [of concurrent domains]
  by (rule run_deferred_invariant [where P = "bound_inv concurrent", rotated])
     (rule step_deferred_bound_inv)

lemma resolv_deferred_step_sync_inv:
  assumes "resolv_deferred_step verbose s i x = Some s'"
    and "sync_inv s"
  shows "sync_inv s'"
  using assms(1)
proof (cases rule: resolv_deferred_step_cases)
  case (leave ev res)
  with assms(2) unfinished_pos [of i "procs s"]
    holders_update [of i "procs s" "(procs s ! i)\<lparr>g_phase := Returned,
      g_panicking := (case res of Inl a \<Rightarrow> True | Inr u \<Rightarrow> False)\<rparr>"]
    unfinished_update [of i "procs s" "(procs s ! i)\<lparr>g_phase := Returned,
      g_panicking := (case res of Inl a \<Rightarrow> True | Inr u \<Rightarrow> False)\<rparr>"]
  show ?thesis by (auto simp: sync_inv_def)
next
  case receive
  with assms(2) unfinished_pos [of i "procs s"]
    holders_update [of i "procs s" "(procs s ! i)\<lparr>g_phase := Released\<rparr>"]
    unfinished_update [of i "procs s" "(procs s ! i)\<lparr>g_phase := Released\<rparr>"]
  show ?thesis by (auto simp: sync_inv_def)
next
  case receive_closed
  with assms(2) show ?thesis by (auto simp: sync_inv_def)
next
  case wg_panic
  then show ?thesis by (simp add: sync_inv_def)
next
  case wg_done
  with assms(2) unfinished_pos [of i "procs s"]
    holders_update [of i "procs s" "(procs s ! i)\<lparr>g_phase := Finished\<rparr>"]
    unfinished_update [of i "procs s" "(procs s ! i)\<lparr>g_phase := Finished\<rparr>"]
  show ?thesis by (auto simp: sync_inv_def)
next
  case wg_crash
  then show ?thesis by (simp add: sync_inv_def)
qed

lemma step_deferred_sync_inv:
  assumes "step_deferred verbose resolvers s l = Some s'"
    and "sync_inv s"
  shows "sync_inv s'"
  using assms
  by (cases l)
     (auto intro: dispatcher_step_sync_inv resolv_deferred_step_sync_inv rendezvous_step_sync_inv)

lemma fastResolv_deferred_sync_inv:
  assumes "fastResolv_deferred verbose chan_limit concurrent resolvers domains sched = Inr (Some s)"
  shows "sync_inv s"
  using fastResolv_deferred_run(1) [OF assms] sync_inv_init [of concurrent domains]
  by (rule run_deferred_invariant [where P = sync_inv, rotated]) (rule step_deferred_sync_inv)


lemma resolv_deferred_step_hist_inv:
  assumes "resolv_deferred_step verbose s i x = Some s'"
    and "hist_inv s"
  shows "hist_inv s'"
  using assms(1)
proof (cases rule: resolv_deferred_step_cases)
  case (leave ev res)
  from assms(2) have h: "history_of j s =
            (if j < length (procs s)
             then take (phase_no (g_phase (procs s ! j))) (lifecycle j (g_result (procs s ! j)))
             else [])" for j
    by (simp add: hist_inv_def)
  show ?thesis
    unfolding hist_inv_def
  proof
    fix j
    show "history_of j s' =
            (if j < length (procs s')
             then take (phase_no (g_phase (procs s' ! j))) (lifecycle j (g_result (procs s' ! j)))
             else [])"
      using h [of j] leave
      by (cases "j = i") (auto simp: history_of_def take_lifecycle)
  qed
next
  case receive
  from assms(2) have h: "history_of j s =
            (if j < length (procs s)
             then take (phase_no (g_phase (procs s ! j))) (lifecycle j (g_result (procs s ! j)))
             else [])" for j
    by (simp add: hist_inv_def)
  show ?thesis
    unfolding hist_inv_def
  proof
    fix j
    show "history_of j s' =
            (if j < length (procs s')
             then take (phase_no (g_phase (procs s' ! j))) (lifecycle j (g_result (procs s' ! j)))
             else [])"
      using h [of j] receive
      by (cases "j = i") (auto simp: history_of_def take_lifecycle)
  qed
next
  case receive_closed
  from assms(2) have h: "history_of j s =
            (if j < length (procs s)
             then take (phase_no (g_phase (procs s ! j))) (lifecycle j (g_result (procs s ! j)))
             else [])" for j
    by (simp add: hist_inv_def)
  show ?thesis
    unfolding hist_inv_def
  proof
    fix j
    show "history_of j s' =
            (if j < length (procs s')
             then take (phase_no (g_phase (procs s' ! j))) (lifecycle j (g_result (procs s' ! j)))
             else [])"
      using h [of j] receive_closed
      by (cases "j = i") (auto simp: history_of_def take_lifecycle)
  qed
next
  case wg_panic
  with assms(2) show ?thesis by (simp add: hist_inv_def history_of_def)
next
  case wg_done
  from assms(2) have h: "history_of j s =
            (if j < length (procs s)
             then take (phase_no (g_phase (procs s ! j))) (lifecycle j (g_result (procs s ! j)))
             else [])" for j
    by (simp add: hist_inv_def)
  show ?thesis
    unfolding hist_inv_def
  proof
    fix j
    show "history_of j s' =
            (if j < length (procs s')
             then take (phase_no (g_phase (procs s' ! j))) (lifecycle j (g_result (procs s' ! j)))
             else [])"
      using h [of j] wg_done
      by (cases "j = i") (auto simp: history_of_def take_lifecycle)
  qed
next
  case wg_crash
  from assms(2) have h: "history_of j s =
            (if j < length (procs s)
             then take (phase_no (g_phase (procs s ! j))) (lifecycle j (g_result (procs s ! j)))
             else [])" for j
    by (simp add: hist_inv_def)
  show ?thesis
    unfolding hist_inv_def
  proof
    fix j
    show "history_of j s' =
            (if j < length (procs s')
             then take (phase_no (g_phase (procs s' ! j))) (lifecycle j (g_result (procs s' ! j)))
             else [])"
      using h [of j] wg_crash
      by (cases "j = i") (auto simp: history_of_def take_lifecycle)
  qed
qed

lemma step_deferred_hist_inv:
  assumes "step_deferred verbose resolvers s l = Some s'"
    and "hist_inv s"
  shows "hist_inv s'"
  using assms
  by (cases l)
     (auto intro: dispatcher_step_hist_inv resolv_deferred_step_hist_inv rendezvous_step_hist_inv)

lemma fastResolv_deferred_hist_inv:
  assumes "fastResolv_deferred verbose chan_limit concurrent resolvers domains sched = Inr (Some s)"
  shows "hist_inv s"
  using fastResolv_deferred_run(1) [OF assms] hist_inv_init [of concurrent domains]
  by (rule run_deferred_invariant [where P = hist_inv, rotated]) (rule step_deferred_hist_inv)

lemma step_deferred_unbuffered_inv:
  assumes "step_deferred verbose resolvers s l = Some s'"
    and "unbuffered_inv domains s"
  shows "unbuffered_inv domains s'"
proof (cases l)
  case Dispatcher
  with assms show ?thesis
    by (cases "pc s")
       (auto simp: dispatcher_step_def unbuffered_inv_def split: if_splits list.splits option.splits)
next
  case (Goroutine i x)
  with assms show ?thesis
    by (simp add: resolv_deferred_step_def unbuffered_inv_def)
next
  case (Rendezvous i)
  with assms show ?thesis
    by (cases "pc s") (simp_all add: rendezvous_step_def unbuffered_inv_def)
qed

lemma fastResolv_deferred_unbuffered_inv:
  assumes "fastResolv_deferred verbose chan_limit 0 resolvers domains sched = Inr (Some s)"
  shows "unbuffered_inv (fst domains) s"
  using fastResolv_deferred_run(1) [OF assms] unbuffered_inv_init [of domains]
  by (rule run_deferred_invariant [where P = "unbuffered_inv (fst domains)", rotated])
     (rule step_deferred_unbuffered_inv)

lemma resolv_deferred_enabled:
  assumes "i < length (procs s)" "pc s \<noteq> Panicked" "pc s \<noteq> Exited"
    and "g_phase (procs s ! i) \<noteq> Finished"
    and "g_phase (procs s ! i) = Returned \<longrightarrow> 0 < threads s"
  shows "resolv_deferred_step verbose s i x \<noteq> None"
  using assms
  by (cases "g_phase (procs s ! i)")
     (auto simp: resolv_deferred_step_def Let_def split: prod.splits)

lemma resolv_deferred_step_failed:
  assumes "i < length (procs s)" "pc s \<noteq> Panicked" "pc s \<noteq> Exited"
    and "g_phase (procs s ! i) = Querying"
    and "failed x"
  shows "\<exists>s'. resolv_deferred_step verbose s i x = Some s' \<and> g_phase (procs s' ! i) = Returned \<and>
              \<not> g_panicking (procs s' ! i) \<and> pc s' = pc s \<and> threads s' = threads s"
proof -
  let ?r = "resolv_deferred verbose (\<lambda>client query server. x) (g_domain (procs s ! i))
              (g_server (procs s ! i))"
  from assms(5) have "snd ?r = Inr ()"
    by (intro resolv_deferred_failed) simp
  then obtain ev where "?r = (ev, Inr ())"
    by (cases ?r) simp
  with assms(1-4) show ?thesis
    by (simp add: resolv_deferred_step_def Let_def)
qed

text \<open>What the invariants say of one goroutine, in either variant.\<close>

lemma sync_inv_receive_enabled:
  assumes "sync_inv s"
    and "i < length (procs s)" "pc s \<noteq> Panicked" "pc s \<noteq> Exited"
    and "g_phase (procs s ! i) = Returned"
  shows "resolv2_step verbose s i x \<noteq> None"
    and "resolv_deferred_step verbose s i x \<noteq> None"
proof -
  from assms(1,3) have "threads s = holders (procs s) + at_go (pc s)"
    by (simp add: sync_inv_def)
  moreover from assms(2,5) have "0 < holders (procs s)"
    by (auto intro: holders_pos)
  ultimately have "0 < threads s" by simp
  with assms(2-5) show "resolv2_step verbose s i x \<noteq> None"
    by (intro resolv2_enabled) simp_all
  from \<open>0 < threads s\<close> assms(2-5) show "resolv_deferred_step verbose s i x \<noteq> None"
    by (intro resolv_deferred_enabled) simp_all
qed

lemma sync_inv_Exited:
  assumes "sync_inv s" and "pc s = Exited" and "i < length (procs s)"
  shows "g_phase (procs s ! i) = Finished" and "threads s = 0"
proof -
  from assms(1,2) have u: "unfinished (procs s) = 0"
    and t: "threads s = holders (procs s) + at_go (pc s)"
    by (simp_all add: sync_inv_def)
  from u have fin: "\<forall>g \<in> set (procs s). g_phase g = Finished"
    by (auto dest: unfinished_zero)
  with assms(3) show "g_phase (procs s ! i) = Finished" by simp
  from fin have "holders (procs s) = 0"
    by (auto simp: holders_def filter_empty_conv)
  with t assms(2) show "threads s = 0" by simp
qed

lemma hist_inv_receive_count:
  assumes "hist_inv s"
    and "i < length (procs s)"
  shows "history_of i s =
           take (phase_no (g_phase (procs s ! i))) (lifecycle i (g_result (procs s ! i)))"
    and "count_list (hist s) (Receive i) =
           (if g_phase (procs s ! i) = Released \<or> g_phase (procs s ! i) = Finished then 1 else 0)"
proof -
  from assms show h: "history_of i s =
           take (phase_no (g_phase (procs s ! i))) (lifecycle i (g_result (procs s ! i)))"
    by (simp add: hist_inv_def)
  have "count_list (hist s) (Receive i) = count_list (history_of i s) (Receive i)"
    by (simp add: history_of_def count_list_filter)
  with h show "count_list (hist s) (Receive i) =
           (if g_phase (procs s ! i) = Released \<or> g_phase (procs s ! i) = Finished then 1 else 0)"
    by (cases "g_phase (procs s ! i)") (simp_all add: take_lifecycle)
qed

section \<open>The query executor and the resolver pool: claims\<close>

text \<open>
  Claim C3. When the exchange gives a response without error whose response code is
  Success, \<open>resolv\<close> returns the \<open>Ns\<close> fields of exactly the answer records whose header
  type is NS, in the order of the answer section; records of another type are left out,
  and the list is empty when there is none. The hypothesis on the records is that a
  header of type NS comes with the dynamic type \<open>*dns.NS\<close>; otherwise the type assertion
  panics.
\<close>

theorem resolv_success_payload:
  assumes "exch resolv_client (resolv_query domain) server = (Some m, None)"
    and "Rcode m = RcodeSuccess"
    and "list_all typed_RR (Answer m)"
  shows "snd (resolv verbose exch domain server) =
           Inr (Some [ns. NS h ns \<leftarrow> Answer m, Rrtype h = TypeNS])"
proof -
  let ?l = "resolv_loop verbose (Answer m)
             (resolv_head verbose domain server @
                (if verbose then [Printf ''%-30s:'' [S domain]] else [])) []"
  from assms(3) have "snd ?l = Inr ([] @ [ns. NS h ns \<leftarrow> Answer m, Rrtype h = TypeNS])"
    by (rule resolv_loop_typed)
  with assms(1,2) show ?thesis
    by (cases ?l) (auto simp: resolv_success)
qed

theorem resolv_success_payload_witness:
  "snd (resolv True
         (\<lambda>client query server.
            (Some \<lparr>RecursionDesired = True, Rcode = 0, Question = Question query,
                   Answer = [NS \<lparr>Hname = ''example.com.'', Rrtype = 2\<rparr> ''ns1.example.com.'',
                             OtherRR \<lparr>Hname = ''example.com.'', Rrtype = 46\<rparr>,
                             NS \<lparr>Hname = ''example.com.'', Rrtype = 2\<rparr> ''ns2.example.com.'']\<rparr>,
             None))
         ''example.com.'' ''192.0.2.1:53'') =
     Inr (Some [''ns1.example.com.'', ''ns2.example.com.''])"
  using resolv_success_payload
    [of "\<lambda>client query server.
            (Some \<lparr>RecursionDesired = True, Rcode = 0, Question = Question query,
                   Answer = [NS \<lparr>Hname = ''example.com.'', Rrtype = 2\<rparr> ''ns1.example.com.'',
                             OtherRR \<lparr>Hname = ''example.com.'', Rrtype = 46\<rparr>,
                             NS \<lparr>Hname = ''example.com.'', Rrtype = 2\<rparr> ''ns2.example.com.'']\<rparr>,
             None)" "''example.com.''" "''192.0.2.1:53''" _ True]
  by (simp add: RcodeSuccess_def TypeNS_def)

text \<open>
  Claim C4. When the response code is not Success, \<open>resolv\<close> reports the numeric code and
  the label that \<open>rcode2string\<close> has for it, and returns nil without failing. Code 3 has
  the label "Name Error"; a code that is not a key of the table (every code below 0, from
  11 to 15, and above 23) has the empty label.
\<close>

theorem resolv_protocol_error:
  assumes "exch resolv_client (resolv_query domain) server = (Some m, None)"
    and "Rcode m \<noteq> RcodeSuccess"
  shows "resolv verbose exch domain server =
           ((if verbose then [Printf ''Resolving %s using %s\<newline>'' [S domain, S server]] else []) @
            [Exchange resolv_client (resolv_query domain) server,
             Printf ''Error resolving %s from %s (Rcode %d %s)\<newline>''
               [S domain, S server, I (Rcode m), S (map_index rcode2string (Rcode m))]],
            Inr None)
         \<and> map_index rcode2string 3 = ''Name Error''
         \<and> (Rcode m \<notin> dom rcode2string \<longrightarrow> map_index rcode2string (Rcode m) = [])
         \<and> (\<forall>k. k < 0 \<or> (10 < k \<and> k < 16) \<or> 23 < k \<longrightarrow> k \<notin> dom rcode2string)"
proof -
  have "map_index rcode2string 3 = ''Name Error''"
    by (simp add: map_index_def rcode2string_def)
  moreover have "Rcode m \<notin> dom rcode2string \<longrightarrow> map_index rcode2string (Rcode m) = []"
    by (auto simp: map_index_def domIff)
  moreover have "\<forall>k. k < 0 \<or> (10 < k \<and> k < 16) \<or> 23 < k \<longrightarrow> k \<notin> dom rcode2string"
    by (auto simp: rcode2string_def domIff)
  ultimately show ?thesis
    using assms by (simp add: resolv_rcode resolv_head_def)
qed

theorem resolv_protocol_error_witness:
  "resolv False (\<lambda>client query server. (Some (new_Msg\<lparr>Rcode := 3\<rparr>), None)) ''example.com.'' ''192.0.2.1:53'' =
     ([Exchange resolv_client (resolv_query ''example.com.'') ''192.0.2.1:53'',
       Printf ''Error resolving %s from %s (Rcode %d %s)\<newline>''
         [S ''example.com.'', S ''192.0.2.1:53'', I 3, S ''Name Error'']],
      Inr None)
   \<and> resolv False (\<lambda>client query server. (Some (new_Msg\<lparr>Rcode := 11\<rparr>), None)) ''example.com.'' ''192.0.2.1:53'' =
     ([Exchange resolv_client (resolv_query ''example.com.'') ''192.0.2.1:53'',
       Printf ''Error resolving %s from %s (Rcode %d %s)\<newline>''
         [S ''example.com.'', S ''192.0.2.1:53'', I 11, S []]],
      Inr None)"
  using resolv_protocol_error
    [of "\<lambda>client query server. (Some (new_Msg\<lparr>Rcode := 3\<rparr>), None)" "''example.com.''"
        "''192.0.2.1:53''" "new_Msg\<lparr>Rcode := 3\<rparr>" False]
    resolv_protocol_error
    [of "\<lambda>client query server. (Some (new_Msg\<lparr>Rcode := 11\<rparr>), None)" "''example.com.''"
        "''192.0.2.1:53''" "new_Msg\<lparr>Rcode := 11\<rparr>" False]
  by (simp add: RcodeSuccess_def new_Msg_def)

text \<open>
  Claim C7. With a configuration that lists no server, \<open>initResolvers\<close> ends the process
  with exit code 5, and so does \<open>main\<close> once the usage check has passed, on either
  dispatch path; the trace of that run holds no exchange.
\<close>

theorem no_resolvers_exit_5:
  "initResolvers verbose (Some [], e) [] = ([Println ''No resolvers found.''], Inl (Exit 5))
   \<and> (length args = 1 \<longrightarrow>
        main verbose fast chan_limit concurrent prog args (Some [], e) fopen net =
          ([Println ''No resolvers found.''], Inl (Exit 5))
        \<and> exchanges (fst (main verbose fast chan_limit concurrent prog args (Some [], e) fopen net)) = [])"
  by (simp add: initResolvers_def main_def)

theorem no_resolvers_exit_5_witness:
  "main True True 1024 4 ''bulkdns'' [''domains.txt''] (Some [], []) (\<lambda>name. Some ([''example.com.''], None))
     (\<lambda>k client query server. (None, None)) =
   ([Println ''No resolvers found.''], Inl (Exit 5))"
  using no_resolvers_exit_5
    [where verbose = True and e = "[]" and args = "[''domains.txt'']" and fast = True
       and chan_limit = 1024 and concurrent = 4 and prog = "''bulkdns''"
       and fopen = "\<lambda>name. Some ([''example.com.''], None)"
       and net = "\<lambda>k client query server. (None, None)"]
  by simp

text \<open>
  Claim C8. Each call of \<open>resolv\<close> sends exactly one message: recursion desired, one
  question, of type NS and for the domain given, with a client whose read timeout is
  5 000 000 000 nanoseconds, that is 5 seconds.
\<close>

theorem resolv_query_shape:
  "exchanges (fst (resolv verbose exch domain server)) = [(resolv_client, resolv_query domain, server)]
   \<and> RecursionDesired (resolv_query domain)
   \<and> Question (resolv_query domain) = [\<lparr>Name = domain, Qtype = TypeNS, Qclass = ClassINET\<rparr>]
   \<and> sint (ReadTimeout resolv_client) = 5 * 1000000000"
  by (simp add: resolv_exchanges resolv_query_eq resolv_client_def new_Client_def TIMEOUT_def)

text \<open>
  Claim C9. The endpoint built from a server address is the address followed by ":53",
  and the address is put in square brackets first exactly when it contains a colon. The
  pool is the list of these endpoints, in the order of the configuration.
\<close>

theorem endpoint_normalized:
  "endpoint server =
     (if CHR '':'' \<in> set server then ''['' @ server @ '']:53'' else server @ '':53'')
   \<and> snd (initResolvers verbose (Some servers, e) []) =
       (if servers = [] then Inl (Exit 5) else Inr (map endpoint servers))"
proof -
  have "snd (initResolvers_loop verbose servers ([], [])) = [] @ map endpoint servers"
    by (rule initResolvers_loop_eq)
  then show ?thesis
    by (cases "initResolvers_loop verbose servers ([], [])")
      (auto simp: endpoint_def ContainsAny_colon initResolvers_def)
qed

theorem endpoint_normalized_witness:
  "endpoint ''2001:db8::1'' = ''[2001:db8::1]:53'' \<and> endpoint ''192.0.2.1'' = ''192.0.2.1:53''
   \<and> snd (initResolvers False (Some [''192.0.2.1'', ''2001:db8::1''], []) []) =
       Inr [''192.0.2.1:53'', ''[2001:db8::1]:53'']"
  using endpoint_normalized [of "''2001:db8::1''" False "[''192.0.2.1'', ''2001:db8::1'']" "[]"]
    endpoint_normalized [of "''192.0.2.1''" False "[''192.0.2.1'', ''2001:db8::1'']" "[]"]
  by simp

text \<open>
  Claim C10. \<open>resolv\<close> returns the nil slice exactly on its three error branches: an
  error from the exchange, a nil response, a response code other than Success. On
  success it returns a slice that is not nil, also when it has no element.
\<close>

theorem resolv_nil_iff_failure:
  assumes "exch resolv_client (resolv_query domain) server = (r, err)"
  shows "(snd (resolv verbose exch domain server) = Inr None) =
           (err \<noteq> None \<or> (case r of None \<Rightarrow> True | Some m \<Rightarrow> Rcode m \<noteq> RcodeSuccess))
         \<and> (typed_xresult (r, err) \<longrightarrow>
              (\<exists>nslist. snd (resolv verbose exch domain server) = Inr nslist))"
proof -
  have ret: "typed_xresult (r, err) \<longrightarrow> (\<exists>nslist. snd (resolv verbose exch domain server) = Inr nslist)"
    using resolv_returns [of exch domain server verbose] assms by simp
  have "(snd (resolv verbose exch domain server) = Inr None) =
           (err \<noteq> None \<or> (case r of None \<Rightarrow> True | Some m \<Rightarrow> Rcode m \<noteq> RcodeSuccess))"
  proof (cases rule: resolv_cases [of exch domain server])
    case (transport r' e)
    from transport assms have "err = Some e" by simp
    then show ?thesis by (simp add: resolv_transport_error [where exch = exch and domain = domain and server = server, OF transport])
  next
    case nil
    from nil assms have "r = None" "err = None" by simp_all
    then show ?thesis by (simp add: resolv_nil_response [where exch = exch and domain = domain and server = server, OF nil])
  next
    case (rcode m)
    from rcode assms have "r = Some m" "err = None" by simp_all
    then show ?thesis using rcode(2) by (simp add: resolv_rcode [where exch = exch and domain = domain and server = server, OF rcode])
  next
    case (success m)
    let ?l = "resolv_loop verbose (Answer m)
             (resolv_head verbose domain server @
                (if verbose then [Printf ''%-30s:'' [S domain]] else [])) []"
    from success assms have "r = Some m" "err = None" by simp_all
    then show ?thesis using success(2)
      by (cases ?l; cases "snd ?l") (auto simp: resolv_success [where exch = exch and domain = domain and server = server, OF success])
  qed
  with ret show ?thesis by simp
qed

theorem resolv_nil_iff_failure_witness:
  "snd (resolv False (\<lambda>client query server. (None, Some ''i/o timeout'')) ''example.com.'' ''192.0.2.1:53'') = Inr None
   \<and> snd (resolv False (\<lambda>client query server. (None, None)) ''example.com.'' ''192.0.2.1:53'') = Inr None
   \<and> snd (resolv False (\<lambda>client query server. (Some (new_Msg\<lparr>Rcode := 2\<rparr>), None)) ''example.com.'' ''192.0.2.1:53'') = Inr None
   \<and> snd (resolv False (\<lambda>client query server. (Some new_Msg, None)) ''example.com.'' ''192.0.2.1:53'') \<noteq> Inr None
   \<and> (\<exists>nslist. snd (resolv False (\<lambda>client query server. (Some new_Msg, None)) ''example.com.'' ''192.0.2.1:53'') = Inr nslist)"
  using resolv_nil_iff_failure [of "\<lambda>client query server. (None, Some ''i/o timeout'')" "''example.com.''" "''192.0.2.1:53''" None "Some ''i/o timeout''" False]
    resolv_nil_iff_failure [of "\<lambda>client query server. (None, None)" "''example.com.''" "''192.0.2.1:53''" None None False]
    resolv_nil_iff_failure [of "\<lambda>client query server. (Some (new_Msg\<lparr>Rcode := 2\<rparr>), None)" "''example.com.''" "''192.0.2.1:53''" "Some (new_Msg\<lparr>Rcode := 2\<rparr>)" None False]
    resolv_nil_iff_failure [of "\<lambda>client query server. (Some new_Msg, None)" "''example.com.''" "''192.0.2.1:53''" "Some new_Msg" None False]
  by (simp add: new_Msg_def RcodeSuccess_def typed_xresult_def)

section \<open>The dispatcher: claims\<close>






text \<open>
  Claim C5. In every state of every run, in either variant of the program, the history
  of goroutine \<open>i\<close> is a prefix of: started, left \<open>resolv\<close>, received from \<open>threads\<close>, called
  \<open>wg.Done()\<close>. So it receives at most once, only after its query has ended, and exactly
  once by the time \<open>fastResolv\<close> returns, when the channel is empty again. A goroutine
  whose query has ended is never blocked at its receive, and a query that fails (error,
  nil response, response code other than Success) ends like any other: with the nil
  result in \<open>resolv2\<close>, by a plain return where the calls are deferred.
\<close>

theorem slot_released_exactly_once:
  assumes "fastResolv verbose chan_limit concurrent resolvers domains sched = Inr (Some s) \<or>
           fastResolv_deferred verbose chan_limit concurrent resolvers domains sched = Inr (Some s)"
    and "i < length (procs s)"
  shows "history_of i s =
           take (phase_no (g_phase (procs s ! i))) (lifecycle i (g_result (procs s ! i)))
       \<and> count_list (hist s) (Receive i) =
           (if g_phase (procs s ! i) = Released \<or> g_phase (procs s ! i) = Finished then 1 else 0)
       \<and> (pc s = Exited \<longrightarrow> g_phase (procs s ! i) = Finished \<and> threads s = 0)
       \<and> (g_phase (procs s ! i) = Returned \<and> pc s \<noteq> Exited \<and> pc s \<noteq> Panicked \<longrightarrow>
            resolv2_step verbose s i x \<noteq> None \<and> resolv_deferred_step verbose s i x \<noteq> None)
       \<and> (g_phase (procs s ! i) = Querying \<and> pc s \<noteq> Exited \<and> pc s \<noteq> Panicked \<and> failed x \<longrightarrow>
            (\<exists>s'. resolv2_step verbose s i x = Some s' \<and>
                  g_phase (procs s' ! i) = Returned \<and> g_result (procs s' ! i) = None) \<and>
            (\<exists>s'. resolv_deferred_step verbose s i x = Some s' \<and>
                  g_phase (procs s' ! i) = Returned \<and> \<not> g_panicking (procs s' ! i)))"
proof -
  from assms(1) have hi: "hist_inv s"
    by (auto intro: fastResolv_hist_inv fastResolv_deferred_hist_inv)
  from assms(1) have sy: "sync_inv s"
    by (auto intro: fastResolv_sync_inv fastResolv_deferred_sync_inv)
  show ?thesis
  proof (intro conjI impI)
    show "history_of i s =
           take (phase_no (g_phase (procs s ! i))) (lifecycle i (g_result (procs s ! i)))"
      using hi assms(2) by (rule hist_inv_receive_count)
    show "count_list (hist s) (Receive i) =
           (if g_phase (procs s ! i) = Released \<or> g_phase (procs s ! i) = Finished then 1 else 0)"
      using hi assms(2) by (rule hist_inv_receive_count)
  next
    assume e: "pc s = Exited"
    from sy e assms(2) show "g_phase (procs s ! i) = Finished" by (rule sync_inv_Exited)
    from sy e assms(2) show "threads s = 0" by (rule sync_inv_Exited)
  next
    assume a: "g_phase (procs s ! i) = Returned \<and> pc s \<noteq> Exited \<and> pc s \<noteq> Panicked"
    with sy assms(2) show "resolv2_step verbose s i x \<noteq> None"
      by (intro sync_inv_receive_enabled) simp_all
    from a sy assms(2) show "resolv_deferred_step verbose s i x \<noteq> None"
      by (intro sync_inv_receive_enabled) simp_all
  next
    assume a: "g_phase (procs s ! i) = Querying \<and> pc s \<noteq> Exited \<and> pc s \<noteq> Panicked \<and> failed x"
    with assms(2) have "\<exists>s'. resolv2_step verbose s i x = Some s' \<and> g_phase (procs s' ! i) = Returned \<and>
              g_result (procs s' ! i) = None \<and> pc s' = pc s \<and> threads s' = threads s \<and>
              scanner s' = scanner s \<and> dispatched s' = dispatched s"
      by (intro resolv2_step_failed) simp_all
    then obtain s' where "resolv2_step verbose s i x = Some s'"
      "g_phase (procs s' ! i) = Returned" "g_result (procs s' ! i) = None"
      by (elim exE conjE)
    then show "\<exists>s'. resolv2_step verbose s i x = Some s' \<and>
                  g_phase (procs s' ! i) = Returned \<and> g_result (procs s' ! i) = None"
      by (intro exI conjI)
    from a assms(2) have "\<exists>s'. resolv_deferred_step verbose s i x = Some s' \<and>
              g_phase (procs s' ! i) = Returned \<and> \<not> g_panicking (procs s' ! i) \<and>
              pc s' = pc s \<and> threads s' = threads s"
      by (intro resolv_deferred_step_failed) simp_all
    then obtain s' where "resolv_deferred_step verbose s i x = Some s'"
      "g_phase (procs s' ! i) = Returned" "\<not> g_panicking (procs s' ! i)"
      by (elim exE conjE)
    then show "\<exists>s'. resolv_deferred_step verbose s i x = Some s' \<and>
                  g_phase (procs s' ! i) = Returned \<and> \<not> g_panicking (procs s' ! i)"
      by (intro exI conjI)
  qed
qed

theorem slot_released_exactly_once_witness:
  "map_sum id (map_option (\<lambda>s. (pc s, threads s, map g_result (procs s),
                     map (\<lambda>i. count_list (hist s) (Receive i)) [0, 1, 2])))
     (fastResolv False 100 2 example_resolvers example_domains example_schedule) =
   Inr (Some (Exited, 0, [None, None, Some [''ns.c.example.'']], [1, 1, 1]))
   \<and> map_sum id (map_option (\<lambda>s. (pc s, threads s,
                     map (\<lambda>i. count_list (hist s) (Receive i)) [0, 1, 2])))
     (fastResolv_deferred False 100 2 example_resolvers example_domains example_schedule) =
   Inr (Some (Exited, 0, [1, 1, 1]))"
proof -
  have "map_sum id (map_option (\<lambda>s. (pc s, map g_result (procs s), length (procs s))))
          (fastResolv False 100 2 example_resolvers example_domains example_schedule) =
          Inr (Some (Exited, [None, None, Some [''ns.c.example.'']], 3))"
    by code_simp
  from map_sum_option_eq [OF this] obtain s
    where s: "fastResolv False 100 2 example_resolvers example_domains example_schedule =
                Inr (Some s)"
    and pc: "pc s = Exited" and r: "map g_result (procs s) = [None, None, Some [''ns.c.example.'']]"
    and len: "length (procs s) = 3"
    by auto
  have once: "count_list (hist s) (Receive i) = 1 \<and> threads s = 0" if "i < 3" for i
  proof -
    from that len have i: "i < length (procs s)" by simp
    note t = slot_released_exactly_once [OF disjI1, OF s i, of "(None, None)"]
    from t [THEN conjunct2, THEN conjunct2, THEN conjunct1] pc
    have "g_phase (procs s ! i) = Finished" "threads s = 0" by simp_all
    with t [THEN conjunct2, THEN conjunct1] show ?thesis by simp
  qed
  have "map_sum id (map_option (\<lambda>s. (pc s, length (procs s))))
          (fastResolv_deferred False 100 2 example_resolvers example_domains example_schedule) =
          Inr (Some (Exited, 3))"
    by code_simp
  from map_sum_option_eq [OF this] obtain s'
    where s': "fastResolv_deferred False 100 2 example_resolvers example_domains example_schedule =
                 Inr (Some s')"
    and pc': "pc s' = Exited" and len': "length (procs s') = 3"
    by auto
  have once': "count_list (hist s') (Receive i) = 1 \<and> threads s' = 0" if "i < 3" for i
  proof -
    from that len' have i: "i < length (procs s')" by simp
    note t = slot_released_exactly_once [OF disjI2, OF s' i, of "(None, None)"]
    from t [THEN conjunct2, THEN conjunct2, THEN conjunct1] pc'
    have "g_phase (procs s' ! i) = Finished" "threads s' = 0" by simp_all
    with t [THEN conjunct2, THEN conjunct1] show ?thesis by simp
  qed
  from once [of 0] once [of 1] once [of 2] s pc r once' [of 0] once' [of 1] once' [of 2] s' pc'
  show ?thesis by simp
qed

text \<open>
  Claim C6, as amended. A query that fails makes \<open>resolv\<close> return nil, nothing more. On
  the sequential path, whichever queries fail, the loop runs to its end and the queries
  sent are the round robin over the input: every domain once, in input order. On the
  concurrent path a failing query leaves the dispatcher, the lines still to read and the
  goroutines started as they were; in every state the goroutines started are those of
  the first lines, in input order, and no query is sent more often than it was given
  out; nobody panics as long as every answer is a failure or well typed; no run is longer
  than seven steps for each line and four more. When the channel has room for at least
  one value, every run in which nobody has panicked goes on to the return of \<open>fastResolv\<close>
  even if every query still to come fails, and then each line has its goroutine and each
  goroutine has sent its one query. With capacity 0 no query is ever sent, and with a
  capacity that \<open>make\<close> refuses the process ends before the first line is read.
\<close>

theorem failures_do_not_stop_the_batch:
  assumes "resolvers \<noteq> []"
  shows "(failed (exch resolv_client (resolv_query domain) server) \<longrightarrow>
            snd (resolv verbose exch domain server) = Inr None)
       \<and> ((\<forall>j d r. typed_or_failed (net j resolv_client (resolv_query d) r)) \<longrightarrow>
            snd (slowResolv verbose resolvers net domains) = Inr () \<and>
            queries (fst (slowResolv verbose resolvers net domains)) =
              round_robin resolvers (fst domains) \<and>
            map fst (queries (fst (slowResolv verbose resolvers net domains))) = fst domains)
       \<and> (\<forall>s. fastResolv verbose chan_limit concurrent resolvers domains sched = Inr (Some s) \<longrightarrow>
            (\<forall>i x. i < length (procs s) \<and> g_phase (procs s ! i) = Querying \<and>
                   pc s \<noteq> Exited \<and> pc s \<noteq> Panicked \<and> failed x \<longrightarrow>
               (\<exists>s'. resolv2_step verbose s i x = Some s' \<and> pc s' = pc s \<and>
                     scanner s' = scanner s \<and> dispatched s' = dispatched s)) \<and>
            map g_domain (procs s) = take (length (procs s)) (fst domains) \<and>
            mset (queried s) \<subseteq># mset (queries (trace s)) \<and>
            mset (queries (trace s)) \<subseteq># mset (dispatched s) \<and>
            (list_all calm sched \<longrightarrow> pc s \<noteq> Panicked) \<and>
            length sched \<le> 7 * length (fst domains) + 4 \<and>
            (pc s = Exited \<longrightarrow>
               map g_domain (procs s) = fst domains \<and>
               mset (queries (trace s)) = mset (round_robin resolvers (fst domains))) \<and>
            (0 < concurrent \<and> pc s \<noteq> Panicked \<longrightarrow>
               (\<exists>more s'. list_all failing more \<and>
                  fastResolv verbose chan_limit concurrent resolvers domains (sched @ more) =
                    Inr (Some s') \<and>
                  pc s' = Exited)) \<and>
            (concurrent = 0 \<longrightarrow>
               queries (trace s) = [] \<and> (fst domains \<noteq> [] \<longrightarrow> pc s \<noteq> Exited)))
       \<and> (0 < concurrent \<and> concurrent \<le> chan_limit \<and> length xs = length (fst domains) \<and>
          list_all typed_or_failed xs \<longrightarrow>
            (\<exists>s. fastResolv verbose chan_limit concurrent resolvers domains (serial_schedule 0 xs) =
                   Inr (Some s) \<and>
                 pc s = Exited))
       \<and> (chan_limit < concurrent \<longrightarrow>
            fastResolv verbose chan_limit concurrent resolvers domains sched = Inl Panic)"
proof (intro conjI allI impI)
  assume "failed (exch resolv_client (resolv_query domain) server)"
  then show "snd (resolv verbose exch domain server) = Inr None"
    by (rule resolv_failed)
next
  assume t: "\<forall>j d r. typed_or_failed (net j resolv_client (resolv_query d) r)"
  with assms show "snd (slowResolv verbose resolvers net domains) = Inr ()"
    by (intro slowResolv_complete) simp_all
  from assms t show q: "queries (fst (slowResolv verbose resolvers net domains)) =
              round_robin resolvers (fst domains)"
    by (intro slowResolv_complete) simp_all
  then show "map fst (queries (fst (slowResolv verbose resolvers net domains))) = fst domains"
    by (simp add: map_fst_round_robin)
next
  fix s i x
  assume "fastResolv verbose chan_limit concurrent resolvers domains sched = Inr (Some s)"
    and "i < length (procs s) \<and> g_phase (procs s ! i) = Querying \<and>
           pc s \<noteq> Exited \<and> pc s \<noteq> Panicked \<and> failed x"
  then have "\<exists>s'. resolv2_step verbose s i x = Some s' \<and> g_phase (procs s' ! i) = Returned \<and>
              g_result (procs s' ! i) = None \<and> pc s' = pc s \<and> threads s' = threads s \<and>
              scanner s' = scanner s \<and> dispatched s' = dispatched s"
    by (intro resolv2_step_failed) simp_all
  then obtain s' where "resolv2_step verbose s i x = Some s'" "pc s' = pc s"
    "scanner s' = scanner s" "dispatched s' = dispatched s"
    by (elim exE conjE)
  then show "\<exists>s'. resolv2_step verbose s i x = Some s' \<and> pc s' = pc s \<and>
             scanner s' = scanner s \<and> dispatched s' = dispatched s"
    by (intro exI conjI)
next
  fix s
  assume run: "fastResolv verbose chan_limit concurrent resolvers domains sched = Inr (Some s)"
  from assms run have "rr_inv resolvers (fst domains) s" by (rule fastResolv_rr_inv)
  then have "dispatched s = take (length (procs s)) (round_robin resolvers (fst domains))"
    by (simp add: rr_inv_def)
  then have "map fst (dispatched s) =
             take (length (procs s)) (map fst (round_robin resolvers (fst domains)))"
    by (simp add: take_map)
  then show "map g_domain (procs s) = take (length (procs s)) (fst domains)"
    by (simp add: dispatched_def map_fst_round_robin comp_def)
  from run have "sent_inv s" by (rule fastResolv_sent_inv)
  then show "mset (queried s) \<subseteq># mset (queries (trace s))"
    by (simp add: sent_inv_def)
  from run have tr: "trace_inv s" by (rule fastResolv_trace_inv)
  then show sub: "mset (queries (trace s)) \<subseteq># mset (dispatched s)"
    by (simp add: trace_inv_def)
  from fastResolv_bounded [OF run]
  show "length sched \<le> 7 * length (fst domains) + 4"
    by simp
  {
    assume "list_all calm sched"
    with assms run show "pc s \<noteq> Panicked" by (rule fastResolv_no_panic)
  }
  {
    assume e: "pc s = Exited"
    with assms run show "map g_domain (procs s) = fst domains"
      by (rule fastResolv_Exited)
    from assms run e
    show "mset (queries (trace s)) = mset (round_robin resolvers (fst domains))"
      by (rule fastResolv_Exited)
  }
  {
    assume "0 < concurrent \<and> pc s \<noteq> Panicked"
    then have "0 < concurrent" "pc s \<noteq> Panicked" by simp_all
    from fastResolv_completes [OF assms this(1) run this(2)]
    show "\<exists>more s'. list_all failing more \<and>
            fastResolv verbose chan_limit concurrent resolvers domains (sched @ more) =
              Inr (Some s') \<and>
            pc s' = Exited" .
  }
  {
    assume z: "concurrent = 0"
    with run have u: "unbuffered_inv (fst domains) s"
      by (auto intro: fastResolv_unbuffered_inv)
    then have "dispatched s = []"
      by (simp add: unbuffered_inv_def dispatched_def)
    with sub show "queries (trace s) = []" by simp
    assume "fst domains \<noteq> []"
    with u show "pc s \<noteq> Exited"
      by (cases "pc s") (auto simp: unbuffered_inv_def)
  }
next
  assume a: "0 < concurrent \<and> concurrent \<le> chan_limit \<and> length xs = length (fst domains) \<and>
             list_all typed_or_failed xs"
  with assms
  show "\<exists>s. fastResolv verbose chan_limit concurrent resolvers domains (serial_schedule 0 xs) =
              Inr (Some s) \<and>
            pc s = Exited"
    by (intro fastResolv_serial) simp_all
next
  assume "chan_limit < concurrent"
  then show "fastResolv verbose chan_limit concurrent resolvers domains sched = Inl Panic"
    by (rule fastResolv_make_fails)
qed

theorem failures_do_not_stop_the_batch_witness:
  "snd (slowResolv False example_resolvers example_net example_domains) = Inr ()
   \<and> map fst (queries (fst (slowResolv False example_resolvers example_net example_domains))) =
       [''a.example.'', ''b.example.'', ''c.example.'']
   \<and> map_sum id (map_option (\<lambda>s. (pc s, map g_domain (procs s), map g_result (procs s),
                                        queries (trace s))))
       (fastResolv False 100 1 example_resolvers example_domains
          (serial_schedule 0 [(None, Some ''i/o timeout''), (None, None),
                              (Some (new_Msg\<lparr>Rcode := 2\<rparr>), None)])) =
     Inr (Some (Exited, [''a.example.'', ''b.example.'', ''c.example.''], [None, None, None],
       [(''a.example.'', ''192.0.2.1:53''), (''b.example.'', ''[2001:db8::1]:53''),
        (''c.example.'', ''192.0.2.1:53'')]))
   \<and> (\<exists>more s. list_all failing more \<and>
         fastResolv False 100 2 example_resolvers example_domains (take 9 example_schedule @ more) =
           Inr (Some s) \<and>
         pc s = Exited \<and>
         map g_domain (procs s) = [''a.example.'', ''b.example.'', ''c.example.''] \<and>
         mset (queries (trace s)) =
           {#(''a.example.'', ''192.0.2.1:53''), (''b.example.'', ''[2001:db8::1]:53''),
             (''c.example.'', ''192.0.2.1:53'')#})"
proof -
  have ne: "example_resolvers \<noteq> []"
    by (simp add: example_resolvers_def)
  have typed: "\<forall>j d r. typed_or_failed (example_net j resolv_client (resolv_query d) r)"
    by (simp add: typed_or_failed_def failed_def typed_xresult_def example_net_def
          example_answer_def new_Msg_def RcodeSuccess_def)
  have rr: "round_robin example_resolvers (fst example_domains) =
     [(''a.example.'', ''192.0.2.1:53''), (''b.example.'', ''[2001:db8::1]:53''),
      (''c.example.'', ''192.0.2.1:53'')]"
    by (simp add: round_robin_def example_resolvers_def example_domains_def)
  let ?xs = "[(None, Some ''i/o timeout''), (None, None), (Some (new_Msg\<lparr>Rcode := 2\<rparr>), None)]"
  have xs: "0 < (1::nat) \<and> (1::nat) \<le> 100 \<and> length ?xs = length (fst example_domains) \<and>
            list_all typed_or_failed ?xs"
    by (simp add: example_domains_def typed_or_failed_def failed_def new_Msg_def RcodeSuccess_def)
  note f = failures_do_not_stop_the_batch
             [OF ne, where exch = "example_net 0" and domain = "''a.example.''"
                and server = "''192.0.2.1:53''" and verbose = False and net = example_net
                and domains = example_domains and chan_limit = 100 and concurrent = 1
                and sched = "serial_schedule 0 ?xs" and xs = ?xs]
  note f_slow = f [THEN conjunct2, THEN conjunct1, THEN mp, OF typed]
  note f_fast = f [THEN conjunct2, THEN conjunct2, THEN conjunct1]
  note f_serial = f [THEN conjunct2, THEN conjunct2, THEN conjunct2, THEN conjunct1, THEN mp, OF xs]
  note slow = f_slow [THEN conjunct1] f_slow [THEN conjunct2, THEN conjunct2]
  from f_serial obtain s where s: "fastResolv False 100 1 example_resolvers example_domains
             (serial_schedule 0 ?xs) = Inr (Some s)" "pc s = Exited"
    by (elim exE conjE)
  have "map_sum id (map_option (\<lambda>s. (map g_result (procs s), queries (trace s))))
          (fastResolv False 100 1 example_resolvers example_domains (serial_schedule 0 ?xs)) =
        Inr (Some ([None, None, None],
          [(''a.example.'', ''192.0.2.1:53''), (''b.example.'', ''[2001:db8::1]:53''),
           (''c.example.'', ''192.0.2.1:53'')]))"
    by code_simp
  with s(1) have c: "map g_result (procs s) = [None, None, None]"
    "queries (trace s) =
       [(''a.example.'', ''192.0.2.1:53''), (''b.example.'', ''[2001:db8::1]:53''),
        (''c.example.'', ''192.0.2.1:53'')]"
    by simp_all
  from f_fast [THEN spec, of s, THEN mp, OF s(1)]
  have "pc s = Exited \<longrightarrow>
          map g_domain (procs s) = fst example_domains \<and>
          mset (queries (trace s)) = mset (round_robin example_resolvers (fst example_domains))"
    by (elim conjE)
  with s(2) have d: "map g_domain (procs s) = fst example_domains"
    by simp
  have "map_sum id (map_option pc)
          (fastResolv False 100 2 example_resolvers example_domains (take 9 example_schedule)) =
        Inr (Some AtScan)"
    by code_simp
  from map_sum_option_eq [OF this] obtain s9
    where s9: "fastResolv False 100 2 example_resolvers example_domains (take 9 example_schedule) =
                 Inr (Some s9)"
      and pc9: "pc s9 = AtScan"
    by auto
  note g = failures_do_not_stop_the_batch
             [OF ne, where exch = "example_net 0" and domain = "''a.example.''"
                and server = "''192.0.2.1:53''" and verbose = False and net = example_net
                and domains = example_domains and chan_limit = 100 and concurrent = 2
                and xs = ?xs, THEN conjunct2, THEN conjunct2, THEN conjunct1, THEN spec, THEN mp]
  from g [OF s9] pc9
  obtain more s' where m: "list_all failing more"
    and r: "fastResolv False 100 2 example_resolvers example_domains (take 9 example_schedule @ more) =
              Inr (Some s')"
    and e: "pc s' = Exited"
    by auto
  from g [OF r]
  have "pc s' = Exited \<longrightarrow>
          map g_domain (procs s') = fst example_domains \<and>
          mset (queries (trace s')) = mset (round_robin example_resolvers (fst example_domains))"
    by (elim conjE)
  with e rr
  have "map g_domain (procs s') = fst example_domains"
    "mset (queries (trace s')) =
           {#(''a.example.'', ''192.0.2.1:53''), (''b.example.'', ''[2001:db8::1]:53''),
             (''c.example.'', ''192.0.2.1:53'')#}"
    by simp_all
  with m r e
  have last: "\<exists>more s. list_all failing more \<and>
         fastResolv False 100 2 example_resolvers example_domains (take 9 example_schedule @ more) =
           Inr (Some s) \<and>
         pc s = Exited \<and>
         map g_domain (procs s) = [''a.example.'', ''b.example.'', ''c.example.''] \<and>
         mset (queries (trace s)) =
           {#(''a.example.'', ''192.0.2.1:53''), (''b.example.'', ''[2001:db8::1]:53''),
             (''c.example.'', ''192.0.2.1:53'')#}"
    by (auto simp: example_domains_def)
  from slow s c d last show ?thesis
    by (simp add: example_domains_def)
qed

text \<open>
  Claim C6 as stated fails on the concurrent path with the flag \<open>-c 0\<close>, which \<open>main\<close>
  passes on as it is: after the first line is read and counted the dispatcher is at its
  send on a channel without buffer, no goroutine exists to receive, nobody can move, and
  none of the three domains has been queried.
\<close>

theorem queried_exactly_once_counterexample:
  "snd (main False True 100 0 ''bulkdns'' [''domains.txt''] (Some [''192.0.2.1'', ''2001:db8::1''], [])
          (\<lambda>name. Some example_domains) example_net) =
     Inr (Fast_started example_resolvers (fastResolv_start 0 example_domains))
   \<and> fastResolv False 100 0 example_resolvers example_domains [Dispatcher, Dispatcher] =
       Inr (Some ((fastResolv_start 0 example_domains)
                    \<lparr>scanner := [''b.example.'', ''c.example.''], pc := AtSend ''a.example.'',
                     wg := 1, hist := [WgAdd]\<rparr>))
   \<and> queries (trace ((fastResolv_start 0 example_domains)
                    \<lparr>scanner := [''b.example.'', ''c.example.''], pc := AtSend ''a.example.'',
                     wg := 1, hist := [WgAdd]\<rparr>)) = []
   \<and> (\<forall>l. step False example_resolvers
             ((fastResolv_start 0 example_domains)
                \<lparr>scanner := [''b.example.'', ''c.example.''], pc := AtSend ''a.example.'',
                 wg := 1, hist := [WgAdd]\<rparr>) l = None)"
proof -
  let ?s = "(fastResolv_start 0 example_domains)
              \<lparr>scanner := [''b.example.'', ''c.example.''], pc := AtSend ''a.example.'',
               wg := 1, hist := [WgAdd]\<rparr>"
  have a: "snd (main False True 100 0 ''bulkdns'' [''domains.txt''] (Some [''192.0.2.1'', ''2001:db8::1''], [])
          (\<lambda>name. Some example_domains) example_net) =
     Inr (Fast_started example_resolvers (fastResolv_start 0 example_domains))"
    by (simp add: main_def initResolvers_def endpoint_def ContainsAny_def fastResolv_init_def
          make_chan_def fastResolv_start_def example_resolvers_def)
  have b: "fastResolv False 100 0 example_resolvers example_domains [Dispatcher, Dispatcher] =
             Inr (Some ?s)"
    by (simp add: fastResolv_def fastResolv_init_def make_chan_def fastResolv_start_def
          dispatcher_step_def example_domains_def)
  have c: "queries (trace ?s) = []"
    by (simp add: fastResolv_start_def)
  have d: "step False example_resolvers ?s l = None" for l
    by (cases l)
       (simp_all add: fastResolv_start_def dispatcher_step_def resolv2_step_def
          rendezvous_step_def)
  from a b c d show ?thesis by simp
qed

end
